theory Spec2Isabelle
  imports Main "HOL-Library.Word"
begin

unbundle bit_operations_syntax

section \<open>Lexer (src/lexer.ts)\<close>

text \<open>
  A JavaScript string is a sequence of UTF-16 code units; a code unit is a natural
  number below 65536.  Literals of the source are written with \<open>js\<close>.
\<close>

type_synonym jsstring = "nat list"

definition js :: "string \<Rightarrow> jsstring" where
  "js s = map of_char s"

definition cu :: "char \<Rightarrow> nat" where
  "cu c = of_char c"

datatype js_exception = RangeError

record TokenError =
  te_message :: jsstring
  te_line :: nat
  te_column :: nat

record Token =
  tok_type :: string
  tok_value :: jsstring
  tok_line :: nat
  tok_column :: nat
  tok_start :: nat
  tok_end :: nat

record Pos =
  line :: nat
  column :: nat
  current :: nat

definition isAlpha :: "nat \<Rightarrow> bool" where
  "isAlpha c = ((cu CHR ''a'' \<le> c \<and> c \<le> cu CHR ''z'') \<or> (cu CHR ''A'' \<le> c \<and> c \<le> cu CHR ''Z'')
      \<or> c = cu CHR ''_'')"

definition isDigit :: "nat \<Rightarrow> bool" where
  "isDigit c = ((cu CHR ''0'' \<le> c \<and> c \<le> cu CHR ''9'') \<or> c = cu CHR ''.'')"

definition isAlphaNumeric :: "nat \<Rightarrow> bool" where
  "isAlphaNumeric c = (isAlpha c \<or> isDigit c)"

definition isNewline :: "nat \<Rightarrow> bool" where
  "isNewline c = (c = 10)"

definition isEndOfFile :: "nat \<Rightarrow> bool" where
  "isEndOfFile c = (c = 0)"

definition peek :: "jsstring \<Rightarrow> nat \<Rightarrow> nat" where
  "peek source cur = (if cur < length source then source ! cur else 0)"

definition lookahead :: "jsstring \<Rightarrow> nat \<Rightarrow> nat \<Rightarrow> nat" where
  "lookahead source cur n = (if cur + n < length source then source ! (cur + n) else 0)"

definition match :: "jsstring \<Rightarrow> nat \<Rightarrow> nat \<Rightarrow> bool" where
  "match source cur c = (peek source cur = c)"

definition advance :: "jsstring \<Rightarrow> Pos \<Rightarrow> Pos" where
  "advance source p =
     (if isNewline (peek source (current p))
      then \<lparr>line = line p + 1, column = 1, current = current p + 1\<rparr>
      else \<lparr>line = line p, column = column p + 1, current = current p + 1\<rparr>)"

text \<open>\<open>src[i]\<close>: \<open>None\<close> is JavaScript's \<open>undefined\<close> for an index out of range.\<close>

definition at :: "jsstring \<Rightarrow> nat \<Rightarrow> nat option" where
  "at src i = (if i < length src then Some (src ! i) else None)"

definition ESCAPE_SEQUENCES :: "nat \<Rightarrow> nat option" where
  "ESCAPE_SEQUENCES c =
     (if c = cu CHR ''n'' then Some 10
      else if c = cu CHR ''t'' then Some 9
      else if c = cu CHR ''r'' then Some 13
      else if c = 34 then Some 34
      else if c = 39 then Some 39
      else if c = 92 then Some 92
      else if c = cu CHR ''0'' then Some 0
      else None)"

definition isHex :: "nat \<Rightarrow> bool" where
  "isHex c = ((cu CHR ''0'' \<le> c \<and> c \<le> cu CHR ''9'') \<or> (cu CHR ''a'' \<le> c \<and> c \<le> cu CHR ''f'')
      \<or> (cu CHR ''A'' \<le> c \<and> c \<le> cu CHR ''F''))"

definition hexDigit :: "nat \<Rightarrow> nat" where
  "hexDigit c =
     (if c \<le> cu CHR ''9'' then c - cu CHR ''0''
      else if c \<le> cu CHR ''F'' then c - cu CHR ''A'' + 10
      else c - cu CHR ''a'' + 10)"

text \<open>\<open>Number.parseInt(hex, 16)\<close> on a string of hexadecimal digits; \<open>None\<close> is NaN
  (the empty string).  The value is kept exact: the rounding of large values to a double
  never brings one back under 0x10FFFF.\<close>

definition parseHex :: "jsstring \<Rightarrow> nat option" where
  "parseHex hex = (if hex = [] then None else Some (foldl (\<lambda>a c. 16 * a + hexDigit c) 0 hex))"

text \<open>\<open>String.fromCodePoint\<close> throws a RangeError above 0x10FFFF.\<close>

definition fromCodePoint :: "nat \<Rightarrow> js_exception + jsstring" where
  "fromCodePoint cp =
     (if cp > 0x10FFFF then Inl RangeError
      else if cp < 0x10000 then Inr [cp]
      else Inr [0xD800 + (cp - 0x10000) div 0x400, 0xDC00 + (cp - 0x10000) mod 0x400])"

definition fromCharCode :: "nat \<Rightarrow> jsstring" where
  "fromCharCode cp = [cp mod 0x10000]"

text \<open>The loop of the \<open>\u{XXXXXX}\<close> branch: collects hexadecimal digits from index \<open>i\<close>.\<close>

function scanHex :: "jsstring \<Rightarrow> nat \<Rightarrow> jsstring \<Rightarrow> jsstring \<times> nat" where
  "scanHex src i hex =
     (if i < length src \<and> src ! i \<noteq> cu CHR ''}''
      then (if \<not> isHex (src ! i) then (hex, i) else scanHex src (i + 1) (hex @ [src ! i]))
      else (hex, i))"
  by pat_completeness auto
termination
  by (relation "measure (\<lambda>(src, i, hex). length src - i)") auto

declare scanHex.simps [simp del]

definition decodeStringLiteralSegment :: "jsstring \<Rightarrow> nat \<Rightarrow> js_exception + (jsstring \<times> nat)" where
  "decodeStringLiteralSegment src start =
     (let ch = at src (start + 1) in
      if ch = Some (cu CHR ''u'') then
        (if at src (start + 2) = Some (cu CHR ''{'') then
           (case scanHex src (start + 3) [] of (hex, i) \<Rightarrow>
              (case (if at src i = Some (cu CHR ''}'') then parseHex hex else None) of
                 Some codePoint \<Rightarrow>
                   (case fromCodePoint codePoint of
                      Inl e \<Rightarrow> Inl e
                    | Inr s \<Rightarrow> Inr (s, i - start + 1))
               | None \<Rightarrow> Inr (js [CHR 0x5C, CHR ''u'', CHR ''{''] @ hex @ js ''}'', i - start)))
         else
           (let hex = take 4 (drop (start + 2) src) in
            if length hex = 4 \<and> list_all isHex hex
            then Inr (fromCharCode (foldl (\<lambda>a c. 16 * a + hexDigit c) 0 hex), 6)
            else Inr (js [CHR 0x5C, CHR ''u''], 2)))
      else
        (case ch of
           None \<Rightarrow> Inr (js ''undefined'', 2)
         | Some c \<Rightarrow> Inr ([case ESCAPE_SEQUENCES c of Some d \<Rightarrow> d | None \<Rightarrow> c], 2)))"


text \<open>\<open>addToken\<close> with its defaults: \<open>line\<close> and \<open>end\<close> are read from the current
  position; \<open>start\<close> and \<open>column\<close> are given by the caller or default to
  \<open>pos.current - value.length\<close> and \<open>pos.column\<close>.\<close>

definition addToken :: "Token list \<Rightarrow> Pos \<Rightarrow> string \<Rightarrow> jsstring \<Rightarrow> (nat \<times> nat) option \<Rightarrow> Token list" where
  "addToken tokens p ty v startcol =
     tokens @ [\<lparr>tok_type = ty, tok_value = v, tok_line = line p,
       tok_column = (case startcol of Some (s, c) \<Rightarrow> c | None \<Rightarrow> column p),
       tok_start = (case startcol of Some (s, c) \<Rightarrow> s | None \<Rightarrow> current p - length v),
       tok_end = current p\<rparr>]"

definition errorReturn :: "Pos \<Rightarrow> jsstring \<Rightarrow> (nat \<times> nat) option \<Rightarrow> TokenError" where
  "errorReturn p message details =
     \<lparr>te_message = message,
      te_line = (case details of Some (l, c) \<Rightarrow> if l = 0 then line p else l | None \<Rightarrow> line p),
      te_column = (case details of Some (l, c) \<Rightarrow> if c = 0 then column p else c | None \<Rightarrow> column p)\<rparr>"

lemma current_advance [simp]: "current (advance src p) = current p + 1"
  by (simp add: advance_def)

lemma current_advance_pow [simp]: "current ((advance src ^^ n) p) = current p + n"
  by (induction n) simp_all

lemma not_eof_in_range: "\<not> isEndOfFile (peek src i) \<Longrightarrow> i < length src"
  by (auto simp: isEndOfFile_def peek_def split: if_splits)

lemma in_range_less:
  "\<not> isEndOfFile (peek src i) \<Longrightarrow> 0 < n \<Longrightarrow> length src - (i + n) < length src - i"
  using not_eof_in_range [of src i] by arith

lemma in_range_less_Suc:
  "\<not> isEndOfFile (peek src i) \<Longrightarrow> length src - Suc i < length src - i"
  using not_eof_in_range [of src i] by arith

lemma scanHex_ge: "scanHex src i hex = (h, j) \<Longrightarrow> i \<le> j"
proof (induction src i hex rule: scanHex.induct)
  case (1 src i hex)
  then show ?case
    by (subst (asm) (2) scanHex.simps) (auto split: if_splits)
qed

lemma decode_advance_pos:
  assumes "decodeStringLiteralSegment src start = Inr (d, adv)"
  shows "0 < adv"
proof (cases "at src (start + 1) = Some (cu CHR ''u'')")
  case False
  with assms show ?thesis
    by (simp add: decodeStringLiteralSegment_def split: option.splits)
next
  case u: True
  show ?thesis
  proof (cases "at src (start + 2) = Some (cu CHR ''{'')")
    case False
    with u assms show ?thesis
      by (simp add: decodeStringLiteralSegment_def Let_def split: if_splits)
  next
    case True
    obtain hex i where sh: "scanHex src (start + 3) [] = (hex, i)"
      by (cases "scanHex src (start + 3) []")
    from scanHex_ge [OF sh] have "start + 3 \<le> i" .
    with u True sh assms show ?thesis
      by (auto simp: decodeStringLiteralSegment_def split: option.splits sum.splits if_splits)
  qed
qed

text \<open>The loop that reads the inside of a string literal, up to the closing quote
  \<open>ch\<close> or the end of the file.\<close>

function stringLoop :: "jsstring \<Rightarrow> nat \<Rightarrow> Pos \<Rightarrow> jsstring \<Rightarrow> js_exception + (Pos \<times> jsstring)" where
  "stringLoop src ch p v =
     (if \<not> isEndOfFile (peek src (current p)) \<and> \<not> match src (current p) ch then
        (if peek src (current p) = 92 then
           (case decodeStringLiteralSegment src (current p) of
              Inl e \<Rightarrow> Inl e
            | Inr (decoded, adv) \<Rightarrow> stringLoop src ch ((advance src ^^ adv) p) (v @ decoded))
         else stringLoop src ch (advance src p) (v @ [peek src (current p)]))
      else Inr (p, v))"
  by pat_completeness auto
termination
proof (relation "measure (\<lambda>(src, ch, p, v). length src - current p)", goal_cases)
  case 1
  show ?case by simp
next
  case (2 src ch p v x2 decoded adv)
  then show ?case
    using in_range_less [of src "current p" adv] decode_advance_pos [of src "current p" decoded adv]
    by simp
next
  case (3 src ch p v)
  then show ?case
    using in_range_less [of src "current p" 1] by simp
qed

declare stringLoop.simps [simp del]

function commentLoop :: "jsstring \<Rightarrow> Pos \<Rightarrow> jsstring \<Rightarrow> Pos \<times> jsstring" where
  "commentLoop src p v =
     (if \<not> isEndOfFile (peek src (current p)) \<and> \<not> match src (current p) 10
      then commentLoop src (advance src p) (v @ [peek src (current p)])
      else (p, v))"
  by pat_completeness auto
termination
  by (relation "measure (\<lambda>(src, p, v). length src - current p)")
     (simp_all add: in_range_less_Suc)

declare commentLoop.simps [simp del]

text \<open>The number loop; \<open>Inl p\<close> is the early return on a \<open>.\<close> that no digit follows.\<close>

function numberLoop :: "jsstring \<Rightarrow> Pos \<Rightarrow> jsstring \<Rightarrow> Pos + Pos \<times> jsstring" where
  "numberLoop src p v =
     (if \<not> isEndOfFile (peek src (current p))
         \<and> (isDigit (peek src (current p)) \<or> match src (current p) (cu CHR ''.''))
      then (if match src (current p) (cu CHR ''.'') \<and> \<not> isDigit (lookahead src (current p) 1)
            then Inl p
            else numberLoop src (advance src p) (v @ [peek src (current p)]))
      else Inr (p, v))"
  by pat_completeness auto
termination
  by (relation "measure (\<lambda>(src, p, v). length src - current p)")
     (simp_all add: in_range_less_Suc)

declare numberLoop.simps [simp del]

function identLoop :: "jsstring \<Rightarrow> Pos \<Rightarrow> jsstring \<Rightarrow> Pos \<times> jsstring" where
  "identLoop src p v =
     (if \<not> isEndOfFile (peek src (current p)) \<and> isAlphaNumeric (peek src (current p))
      then identLoop src (advance src p) (v @ [peek src (current p)])
      else (p, v))"
  by pat_completeness auto
termination
  by (relation "measure (\<lambda>(src, p, v). length src - current p)")
     (simp_all add: in_range_less_Suc)

declare identLoop.simps [simp del]


datatype step = Continue Pos "Token list" | Return "Token list" "TokenError option" | Throw js_exception

text \<open>One round of the \<open>while\<close> loop of \<open>tokenize\<close>: the \<open>switch\<close> on the current
  character.  \<open>tokenTypes\<close> and \<open>keywords\<close> are the tables of \<open>tokens.ts\<close>, taken as
  parameters.  \<open>Return\<close> is a \<open>return\<close> statement inside the loop, \<open>Throw\<close> an
  exception that leaves \<open>tokenize\<close>.\<close>

definition lexStep ::
  "(jsstring \<Rightarrow> string) \<Rightarrow> (jsstring \<Rightarrow> string option) \<Rightarrow> jsstring \<Rightarrow> Pos \<Rightarrow> Token list \<Rightarrow> step" where
  "lexStep tokenTypes keywords src p tokens =
     (let ch = peek src (current p); start = current p; col = column p in
      if ch = 32 \<or> ch = 9 \<or> ch = 13 \<or> ch = 10 then Continue (advance src p) tokens
      else if ch \<in> set (js ''(),+*^/%'') then
        (let p1 = advance src p
         in Continue p1 (addToken tokens p1 (tokenTypes [ch]) [ch] (Some (start, col))))
      else if ch = 39 \<or> ch = 34 then
        (let quotePos = p; p1 = advance src p in
         case stringLoop src ch p1 [] of
           Inl e \<Rightarrow> Throw e
         | Inr (p2, v) \<Rightarrow>
             if isEndOfFile (peek src (current p2))
             then Return (addToken tokens p2 ''EOF'' [] None)
                    (Some (errorReturn p2 (js ''Unterminated string literal at line'')
                       (Some (line quotePos, column quotePos))))
             else (let p3 = advance src p2
                   in Continue p3 (addToken tokens p3 ''STRING'' v (Some (start, col)))))
      else if ch = cu CHR ''>'' \<or> ch = cu CHR ''<'' then
        (if lookahead src (current p) 1 = cu CHR ''=''
         then (let p2 = advance src (advance src p)
               in Continue p2 (addToken tokens p2 (tokenTypes [ch, cu CHR ''='']) [ch, cu CHR ''='']
                    (Some (start, col))))
         else (let p1 = advance src p
               in Continue p1 (addToken tokens p1 (tokenTypes [ch]) [ch] (Some (start, col)))))
      else if ch = cu CHR ''~'' \<or> ch = cu CHR '':'' \<or> ch = cu CHR ''='' then
        (if ch = cu CHR ''~'' \<and> lookahead src (current p) 1 \<noteq> cu CHR ''=''
         then (let p1 = advance src p
               in Continue p1 (addToken tokens p1 (tokenTypes [ch]) [ch] (Some (start, col))))
         else if lookahead src (current p) 1 \<noteq> cu CHR ''=''
         then Return (addToken tokens p ''EOF'' [] None)
                (Some (errorReturn p (js ''Unexpected character '' @ [39, ch, 39]) None))
         else (let p2 = advance src (advance src p)
               in Continue p2 (addToken tokens p2 (tokenTypes [ch, cu CHR ''='']) [ch, cu CHR ''='']
                    (Some (start, col)))))
      else if ch = cu CHR ''-'' then
        (if lookahead src (current p) 1 \<noteq> cu CHR ''-''
         then (let p1 = advance src p
               in Continue p1 (addToken tokens p1 ''MINUS'' [ch] (Some (start, col))))
         else (case commentLoop src p [] of
                 (p1, v) \<Rightarrow> Continue p1 (addToken tokens p1 ''COMMENT'' v (Some (start, col)))))
      else if isDigit ch then
        (case numberLoop src p [] of
           Inl pe \<Rightarrow> Return (addToken tokens pe ''EOF'' [] None)
                      (Some (errorReturn pe (js ''Unexpected character '' @ [39, cu CHR ''.'', 39]
                         @ js '' in number'') None))
         | Inr (p1, v) \<Rightarrow> Continue p1 (addToken tokens p1 ''NUMBER'' v (Some (start, col))))
      else if isAlpha ch then
        (case identLoop src p [] of
           (p1, v) \<Rightarrow>
             (let ty = (case keywords v of
                          Some k \<Rightarrow> if k = [] then ''IDENTIFIER'' else k
                        | None \<Rightarrow> ''IDENTIFIER'')
              in Continue p1 (addToken tokens p1 ty v (Some (start, col)))))
      else Return (addToken tokens p ''EOF'' [] None)
             (Some (errorReturn p (js ''Unexpected character '' @ [39, ch, 39]) None)))"

lemma stringLoop_mono: "stringLoop src ch p v = Inr (p', v') \<Longrightarrow> current p \<le> current p'"
proof (induction src ch p v rule: stringLoop.induct)
  case (1 src ch p v)
  show ?case
  proof (cases "\<not> isEndOfFile (peek src (current p)) \<and> \<not> match src (current p) ch")
    case False
    with "1.prems" show ?thesis by (subst (asm) stringLoop.simps) auto
  next
    case go: True
    show ?thesis
    proof (cases "peek src (current p) = 92")
      case False
      with go "1.prems" have "stringLoop src ch (advance src p) (v @ [peek src (current p)]) = Inr (p', v')"
        by (subst (asm) stringLoop.simps) simp
      from "1.IH"(2) [OF go False this] show ?thesis by simp
    next
      case True
      with go "1.prems" obtain decoded adv where
        d: "decodeStringLiteralSegment src (current p) = Inr (decoded, adv)" and
        r: "stringLoop src ch ((advance src ^^ adv) p) (v @ decoded) = Inr (p', v')"
        by (subst (asm) stringLoop.simps) (auto split: sum.splits)
      from "1.IH"(1) [OF go True d refl r] show ?thesis by simp
    qed
  qed
qed

lemma commentLoop_mono: "commentLoop src p v = (p', v') \<Longrightarrow> current p \<le> current p'"
proof (induction src p v rule: commentLoop.induct)
  case (1 src p v)
  then show ?case
    by (subst (asm) (2) commentLoop.simps) (auto split: if_splits)
qed

lemma numberLoop_mono: "numberLoop src p v = Inr (p', v') \<Longrightarrow> current p \<le> current p'"
proof (induction src p v rule: numberLoop.induct)
  case (1 src p v)
  then show ?case
    by (subst (asm) (2) numberLoop.simps) (auto split: if_splits)
qed

lemma identLoop_mono: "identLoop src p v = (p', v') \<Longrightarrow> current p \<le> current p'"
proof (induction src p v rule: identLoop.induct)
  case (1 src p v)
  then show ?case
    by (subst (asm) (2) identLoop.simps) (auto split: if_splits)
qed


lemma commentLoop_progress:
  assumes "\<not> isEndOfFile (peek src (current p))" "peek src (current p) \<noteq> 10"
    and "commentLoop src p v = (p', v')"
  shows "current p < current p'"
proof -
  have "commentLoop src p v = commentLoop src (advance src p) (v @ [peek src (current p)])"
    using assms(1,2) by (subst commentLoop.simps) (simp add: match_def)
  with assms(3) have "commentLoop src (advance src p) (v @ [peek src (current p)]) = (p', v')"
    by simp
  from commentLoop_mono [OF this] show ?thesis by simp
qed

lemma numberLoop_progress:
  assumes e: "\<not> isEndOfFile (peek src (current p))" and d: "isDigit (peek src (current p))"
    and r: "numberLoop src p v = Inr (p', v')"
  shows "current p < current p'"
proof (cases "match src (current p) (cu CHR ''.'') \<and> \<not> isDigit (lookahead src (current p) 1)")
  case True
  have "numberLoop src p v = Inl p"
    by (subst numberLoop.simps) (simp only: e d True if_True simp_thms)
  with r show ?thesis by simp
next
  case False
  have "numberLoop src p v = numberLoop src (advance src p) (v @ [peek src (current p)])"
    by (subst numberLoop.simps) (simp only: e d False if_True if_False simp_thms)
  with r have "numberLoop src (advance src p) (v @ [peek src (current p)]) = Inr (p', v')"
    by simp
  from numberLoop_mono [OF this] show ?thesis by simp
qed

lemma identLoop_progress:
  assumes "\<not> isEndOfFile (peek src (current p))" "isAlpha (peek src (current p))"
    and "identLoop src p v = (p', v')"
  shows "current p < current p'"
proof -
  have "identLoop src p v = identLoop src (advance src p) (v @ [peek src (current p)])"
    using assms(1,2) by (subst identLoop.simps) (simp add: isAlphaNumeric_def)
  with assms(3) have "identLoop src (advance src p) (v @ [peek src (current p)]) = (p', v')"
    by simp
  from identLoop_mono [OF this] show ?thesis by simp
qed

lemma lexStep_progress_punct:
  assumes "\<not> (peek src (current p) = 32 \<or> peek src (current p) = 9 \<or> peek src (current p) = 13 \<or> peek src (current p) = 10)"
   "peek src (current p) \<in> set (js ''(),+*^/%'')"
   and st: "lexStep tokenTypes kw src p tokens = Continue p' tokens'"
  shows "current p < current p'"
  using assms by (clarsimp simp: lexStep_def Let_def)

lemma lexStep_progress_quote:
  assumes "\<not> (peek src (current p) = 32 \<or> peek src (current p) = 9 \<or> peek src (current p) = 13 \<or> peek src (current p) = 10)"
   "peek src (current p) \<notin> set (js ''(),+*^/%'')"
   "peek src (current p) = 39 \<or> peek src (current p) = 34"
   and st: "lexStep tokenTypes kw src p tokens = Continue p' tokens'"
  shows "current p < current p'"
proof (cases "stringLoop src (peek src (current p)) (advance src p) []")
  case (Inl e)
  with assms show ?thesis by (simp add: lexStep_def Let_def)
next
  case (Inr r)
  obtain p2 v where r: "r = (p2, v)" by (cases r)
  from stringLoop_mono [OF Inr [unfolded r]] have "current p < current p2" by simp
  moreover from assms Inr r have "p' = advance src p2"
    by (clarsimp simp: lexStep_def Let_def split: if_splits)
  ultimately show ?thesis by simp
qed

lemma lexStep_progress_cmp:
  assumes "\<not> (peek src (current p) = 32 \<or> peek src (current p) = 9 \<or> peek src (current p) = 13 \<or> peek src (current p) = 10)"
   "peek src (current p) \<notin> set (js ''(),+*^/%'')"
   "\<not> (peek src (current p) = 39 \<or> peek src (current p) = 34)"
   "peek src (current p) = cu CHR ''>'' \<or> peek src (current p) = cu CHR ''<''"
   and st: "lexStep tokenTypes kw src p tokens = Continue p' tokens'"
  shows "current p < current p'"
  using assms by (clarsimp simp: lexStep_def Let_def split: if_splits)

lemma lexStep_progress_eq:
  assumes "\<not> (peek src (current p) = 32 \<or> peek src (current p) = 9 \<or> peek src (current p) = 13 \<or> peek src (current p) = 10)"
   "peek src (current p) \<notin> set (js ''(),+*^/%'')"
   "\<not> (peek src (current p) = 39 \<or> peek src (current p) = 34)"
   "\<not> (peek src (current p) = cu CHR ''>'' \<or> peek src (current p) = cu CHR ''<'')"
   "peek src (current p) = cu CHR ''~'' \<or> peek src (current p) = cu CHR '':'' \<or> peek src (current p) = cu CHR ''=''"
   and st: "lexStep tokenTypes kw src p tokens = Continue p' tokens'"
  shows "current p < current p'"
  using assms by (clarsimp simp: lexStep_def Let_def split: if_splits)

lemma lexStep_progress_rest:
  assumes "\<not> (peek src (current p) = 32 \<or> peek src (current p) = 9 \<or> peek src (current p) = 13 \<or> peek src (current p) = 10)"
   "peek src (current p) \<notin> set (js ''(),+*^/%'')"
   "\<not> (peek src (current p) = 39 \<or> peek src (current p) = 34)"
   "\<not> (peek src (current p) = cu CHR ''>'' \<or> peek src (current p) = cu CHR ''<'')"
   "\<not> (peek src (current p) = cu CHR ''~'' \<or> peek src (current p) = cu CHR '':'' \<or> peek src (current p) = cu CHR ''='')"
   and eof: "\<not> isEndOfFile (peek src (current p))"
   and st: "lexStep tokenTypes kw src p tokens = Continue p' tokens'"
  shows "current p < current p'"
proof (cases "peek src (current p) = cu CHR ''-''")
  case True
  then have n: "peek src (current p) \<noteq> 10" by (simp add: cu_def)
  show ?thesis
  proof (cases "lookahead src (current p) 1 \<noteq> cu CHR ''-''")
    case l: True
    with True assms show ?thesis by (clarsimp simp: lexStep_def Let_def)
  next
    case l: False
    obtain p1 v where c: "commentLoop src p [] = (p1, v)" by (cases "commentLoop src p []")
    with l True assms have "p' = p1" by (clarsimp simp: lexStep_def Let_def)
    with commentLoop_progress [OF eof n c] show ?thesis by simp
  qed
next
  case m: False
  show ?thesis
  proof (cases "isDigit (peek src (current p))")
    case True
    show ?thesis
    proof (cases "numberLoop src p []")
      case (Inl a)
      with m True assms show ?thesis by (simp add: lexStep_def Let_def)
    next
      case (Inr r)
      obtain p1 v where r: "r = (p1, v)" by (cases r)
      with Inr m True assms have "p' = p1" by (clarsimp simp: lexStep_def Let_def)
      with numberLoop_progress [OF eof True Inr [unfolded r]] show ?thesis by simp
    qed
  next
    case d: False
    show ?thesis
    proof (cases "isAlpha (peek src (current p))")
      case True
      obtain p1 v where c: "identLoop src p [] = (p1, v)" by (cases "identLoop src p []")
      with m d True assms have "p' = p1" by (clarsimp simp: lexStep_def Let_def)
      with identLoop_progress [OF eof True c] show ?thesis by simp
    next
      case False
      with m d assms show ?thesis by (simp add: lexStep_def Let_def)
    qed
  qed
qed

lemma lexStep_progress_ws:
  assumes "peek src (current p) = 32 \<or> peek src (current p) = 9 \<or> peek src (current p) = 13 \<or> peek src (current p) = 10"
    and st: "lexStep tokenTypes kw src p tokens = Continue p' tokens'"
  shows "current p < current p'"
  using assms by (clarsimp simp: lexStep_def)

lemma lexStep_progress:
  assumes eof: "\<not> isEndOfFile (peek src (current p))"
    and st: "lexStep tokenTypes kw src p tokens = Continue p' tokens'"
  shows "current p < current p'"
  using lexStep_progress_ws [OF _ st] lexStep_progress_punct [OF _ _ st]
    lexStep_progress_quote [OF _ _ _ st] lexStep_progress_cmp [OF _ _ _ _ st]
    lexStep_progress_eq [OF _ _ _ _ _ st] lexStep_progress_rest [OF _ _ _ _ _ eof st]
  by blast

function tokenizeLoop ::
  "(jsstring \<Rightarrow> string) \<Rightarrow> (jsstring \<Rightarrow> string option) \<Rightarrow> jsstring \<Rightarrow> Pos \<Rightarrow> Token list
     \<Rightarrow> js_exception + (Token list \<times> TokenError option)" where
  "tokenizeLoop tokenTypes keywords src p tokens =
     (if \<not> isEndOfFile (peek src (current p)) then
        (case lexStep tokenTypes keywords src p tokens of
           Continue p' tokens' \<Rightarrow> tokenizeLoop tokenTypes keywords src p' tokens'
         | Return toks err \<Rightarrow> Inr (toks, err)
         | Throw e \<Rightarrow> Inl e)
      else Inr (addToken tokens p ''EOF'' [] None, None))"
  by pat_completeness auto
termination
proof (relation "measure (\<lambda>(tt, kw, src, p, toks). length src - current p)", goal_cases)
  case 1
  show ?case by simp
next
  case (2 tt kw src p tokens p' tokens')
  from lexStep_progress [OF 2(1) 2(2)] not_eof_in_range [OF 2(1)]
  show ?case by simp
qed

declare tokenizeLoop.simps [simp del]

text \<open>\<open>tokenize\<close>: \<open>Inl\<close> is an exception thrown out of the function, \<open>Inr\<close> the
  returned \<open>{ tokens, error }\<close>.\<close>

definition tokenize ::
  "(jsstring \<Rightarrow> string) \<Rightarrow> (jsstring \<Rightarrow> string option) \<Rightarrow> jsstring
     \<Rightarrow> js_exception + (Token list \<times> TokenError option)" where
  "tokenize tokenTypes keywords src =
     tokenizeLoop tokenTypes keywords src \<lparr>line = 1, column = 1, current = 0\<rparr> []"

definition isEOFToken :: "Token \<Rightarrow> bool" where
  "isEOFToken t = (tok_type t = ''EOF'' \<and> tok_value t = [])"


section \<open>Binary encoder (compiler/wasm.ts)\<close>

type_synonym byte = "8 word"
type_synonym bytes = "byte list"

text \<open>A JavaScript number that holds a float is kept as its IEEE-754 binary64 bit
  pattern; no arithmetic is done on it apart from the sign flip of unary minus.\<close>

type_synonym f64bits = "64 word"

text \<open>Modelled from the spec: \<open>compiler/wasm.ts\<close> is not among the sources.  Section 4.A
  gives \<open>uleb128\<close> and \<open>sleb128\<close> "per DWARF rules": seven bits a byte, least significant
  group first, the high bit set on every byte but the last.\<close>

function unsignedLEB :: "nat \<Rightarrow> bytes" where
  "unsignedLEB n = (if n < 128 then [of_nat n] else of_nat (n mod 128 + 128) # unsignedLEB (n div 128))"
  by pat_completeness auto
termination
  by (relation "measure id") auto

declare unsignedLEB.simps [simp del]

function signedLEB :: "int \<Rightarrow> bytes" where
  "signedLEB n = (if - 64 \<le> n \<and> n < 64 then [of_int (n mod 128)]
     else of_int (n mod 128 + 128) # signedLEB (n div 128))"
  by pat_completeness auto
termination
  by (relation "measure (\<lambda>n. nat \<bar>n\<bar>)") auto

declare signedLEB.simps [simp del]

text \<open>Modelled from the spec (section 4.A): \<open>encode_string\<close> is the length in bytes, then
  the UTF-8 bytes; \<open>emit_section\<close> is the section id, the payload length, the payload.
  Strings of the abstract syntax are kept as \<open>string\<close>, one \<open>char\<close> a code point below
  256, so a code point from 128 on takes two bytes in UTF-8.\<close>

definition utf8 :: "string \<Rightarrow> bytes" where
  "utf8 s = concat (map (\<lambda>c. let n = (of_char c :: nat) in
       if n < 128 then [of_nat n] else [of_nat (192 + n div 64), of_nat (128 + n mod 64)]) s)"

definition encodeString :: "string \<Rightarrow> bytes" where
  "encodeString s = unsignedLEB (length (utf8 s)) @ utf8 s"

definition emitSection :: "byte \<Rightarrow> bytes \<Rightarrow> bytes" where
  "emitSection sid payload = sid # unsignedLEB (length payload) @ payload"

text \<open>Modelled from the spec (sections 4.A and 6.3): the opcode helpers.  A block type is
  one byte: 0x40 for no result, or a value type.\<close>

definition valType_i32 :: byte where "valType_i32 = 0x7F"
definition blockType_none :: byte where "blockType_none = 0x40"

definition i32_const :: "int \<Rightarrow> bytes" where "i32_const n = 0x41 # signedLEB n"
definition i32_add :: bytes where "i32_add = [0x6A]"
definition i32_eqz :: bytes where "i32_eqz = [0x45]"
definition i32_ge_u :: bytes where "i32_ge_u = [0x4F]"
definition i32_or :: bytes where "i32_or = [0x72]"

definition f64_const :: "f64bits \<Rightarrow> bytes" where
  "f64_const v = 0x44 # map (\<lambda>i. ucast (drop_bit (8 * i) v)) [0..<8]"
definition f64_add :: bytes where "f64_add = [0xA0]"
definition f64_neg :: bytes where "f64_neg = [0x9A]"
definition f64_eq :: bytes where "f64_eq = [0x61]"
definition f64_lt :: bytes where "f64_lt = [0x63]"
definition f64_gt :: bytes where "f64_gt = [0x64]"

definition local_get :: "nat \<Rightarrow> bytes" where "local_get i = 0x20 # unsignedLEB i"
definition local_set :: "nat \<Rightarrow> bytes" where "local_set i = 0x21 # unsignedLEB i"
definition fn_call :: "nat \<Rightarrow> bytes" where "fn_call i = 0x10 # unsignedLEB i"
definition fn_return :: bytes where "fn_return = [0x0F]"
definition control_end :: bytes where "control_end = [0x0B]"
definition block_start :: bytes where "block_start = [0x02, blockType_none]"
definition block_end :: bytes where "block_end = [0x0B]"
definition loop_start :: bytes where "loop_start = [0x03, blockType_none]"
definition loop_br :: "nat \<Rightarrow> bytes" where "loop_br d = 0x0C # unsignedLEB d"
definition loop_br_if :: "nat \<Rightarrow> bytes" where "loop_br_if d = 0x0D # unsignedLEB d"
definition loop_end :: bytes where "loop_end = [0x0B]"
definition if_start :: "byte \<Rightarrow> bytes" where "if_start bt = [0x04, bt]"
definition if_else :: bytes where "if_else = [0x05]"
definition if_end :: bytes where "if_end = [0x0B]"
definition misc_unreachable :: bytes where "misc_unreachable = [0x00]"
definition misc_drop :: bytes where "misc_drop = [0x1A]"

text \<open>Modelled from the spec (sections 4.E and 6.3): \<open>nativeBinOps\<close> gives the f64 opcode of
  the ten operators lowered to one instruction; every other operator is \<open>null\<close>.\<close>

definition nativeBinOps :: "string \<Rightarrow> byte option" where
  "nativeBinOps op =
     (if op = ''+'' then Some 0xA0 else if op = ''-'' then Some 0xA1
      else if op = ''*'' then Some 0xA2 else if op = ''/'' then Some 0xA3
      else if op = ''=='' then Some 0x61 else if op = ''~='' then Some 0x62
      else if op = ''<'' then Some 0x63 else if op = ''>'' then Some 0x64
      else if op = ''<='' then Some 0x65 else if op = ''>='' then Some 0x66
      else None)"

section \<open>Abstract syntax (syntax.ts, parser.ts)\<close>

datatype Loc = Loc (loc_line: nat) (loc_column: nat)

datatype Identifier = Identifier (id_name: string) (id_loc: Loc)

datatype Expression =
    StringLiteral string
  | NumberLiteral f64bits
  | BooleanLiteral bool
  | IdentifierExpression Identifier
  | GroupingExpression Expression
  | BinaryExpression string Expression Expression
  | UnaryExpression string Expression
  | FunctionCallExpression Identifier "Expression list" Loc
  | OtherExpression

text \<open>The assignment of a \<open>for\<close> statement is an assignment statement: its three parts
  (local form or not, identifier, expression) are the first three arguments of
  \<open>ForStatement\<close>.  \<open>OtherStatement\<close> and \<open>OtherExpression\<close> stand for a node whose
  \<open>type\<close> is none of those the compiler knows.\<close>

datatype Statement =
    PrintlnStatement Expression
  | PrintStatement Expression
  | LocalAssignStatement Identifier Expression
  | AssignStatement Identifier Expression
  | IfStatement Expression "Statement list" "(Expression \<times> Statement list) list" "Statement list option"
  | WhileStatement Expression "Statement list"
  | ForStatement bool Identifier Expression Expression "Expression option" "Statement list"
  | FunctionDeclStatement Identifier "Identifier list" "Statement list"
  | ReturnStatement Expression
  | ExpressionStatement Expression
  | OtherStatement

record AST =
  ast_type :: string
  ast_body :: "Statement list"

section \<open>Compiler state (compiler/state.ts, compiler/functions.ts)\<close>

datatype CompilerError =
  CompilerError (ce_message: string) (ce_line: nat) (ce_column: nat) (ce_tokenLength: nat)

text \<open>What a \<open>throw\<close> carries: a \<open>CompilerError\<close>, or a plain \<open>Error\<close> with its message.\<close>

datatype thrown = ThrownCompilerError CompilerError | ThrownError string

text \<open>Modelled from the spec (sections 3 and 4.B): \<open>createStringTable\<close> is not among the
  sources.  The table is the list of the distinct literals in the order they were first
  seen; a literal's offset is the number of bytes written before it.\<close>

type_synonym StringTable = "string list"

fun offsetOf :: "string \<Rightarrow> StringTable \<Rightarrow> nat" where
  "offsetOf s [] = 0"
| "offsetOf s (t # ts) = (if s = t then 0 else length (utf8 t) + offsetOf s ts)"

definition getBytes :: "StringTable \<Rightarrow> bytes" where
  "getBytes tbl = concat (map utf8 tbl)"

definition getOffset :: "string \<Rightarrow> StringTable \<Rightarrow> nat \<times> StringTable" where
  "getOffset s tbl = (if s \<in> set tbl then (offsetOf s tbl, tbl) else (length (getBytes tbl), tbl @ [s]))"

record FuncType =
  params :: bytes
  results :: bytes

record FuncDef =
  fd_name :: string
  fd_type :: FuncType

text \<open>The mutable module-level state of the compiler, with the string table of the
  running compilation.  The innermost scope is the head of \<open>scopes\<close>; in a scope the first
  pair of a name is its binding.\<close>

record cstate =
  scopes :: "(string \<times> nat) list list"
  localVarsIndex :: nat
  userDefinedFunctions :: "FuncDef list"
  functionBodies :: "(string \<times> bytes) list"
  strings :: StringTable

text \<open>The constants of \<open>compiler/functions.ts\<close> and \<open>compiler/state.ts\<close> that the spec
  leaves open are parameters: the imported functions, the defined functions (the runtime
  helpers and \<open>main\<close>) in index order, the helper bodies that \<open>resetFunctionBodies\<close>
  installs, and \<open>getLocalDecls\<close>, which reads the module state.\<close>

record runtime =
  importFunctions :: "FuncDef list"
  definedFunctions :: "FuncDef list"
  helperBodies :: "(string \<times> bytes) list"
  getLocalDecls :: "cstate \<Rightarrow> bytes"

type_synonym 'a result = "(thrown \<times> StringTable) + 'a"

definition throw :: "thrown \<Rightarrow> cstate \<Rightarrow> 'a result" where
  "throw e st = Inl (e, strings st)"

definition bind :: "'a result \<Rightarrow> ('a \<Rightarrow> 'b result) \<Rightarrow> 'b result" where
  "bind m f = (case m of Inl e \<Rightarrow> Inl e | Inr x \<Rightarrow> f x)"

lemma bind_cong [fundef_cong]:
  "m = m' \<Longrightarrow> (\<And>x. m' = Inr x \<Longrightarrow> f x = f' x) \<Longrightarrow> bind m f = bind m' f'"
  by (simp add: bind_def split: sum.splits)

lemma bind_Inr [simp]: "bind (Inr x) f = f x"
  by (simp add: bind_def)

lemma bind_Inl [simp]: "bind (Inl e) f = Inl e"
  by (simp add: bind_def)

lemma bind_eq_Inr: "bind m f = Inr y \<longleftrightarrow> (\<exists>x. m = Inr x \<and> f x = Inr y)"
  by (cases m) simp_all

text \<open>Modelled from the spec (section 4.D): the scope stack and the slot counter.\<close>

definition enterScope :: "cstate \<Rightarrow> cstate" where
  "enterScope st = st\<lparr>scopes := [] # scopes st\<rparr>"

definition exitScope :: "cstate \<Rightarrow> cstate" where
  "exitScope st = st\<lparr>scopes := tl (scopes st)\<rparr>"

definition clearScopes :: "cstate \<Rightarrow> cstate" where
  "clearScopes st = st\<lparr>scopes := [[]]\<rparr>"

definition setScopes :: "(string \<times> nat) list list \<Rightarrow> cstate \<Rightarrow> cstate" where
  "setScopes ss st = st\<lparr>scopes := ss\<rparr>"

definition setLocalVarsIndex :: "nat \<Rightarrow> cstate \<Rightarrow> cstate" where
  "setLocalVarsIndex n st = st\<lparr>localVarsIndex := n\<rparr>"

fun lookupScopes :: "string \<Rightarrow> (string \<times> nat) list list \<Rightarrow> nat option" where
  "lookupScopes nm [] = None"
| "lookupScopes nm (sc # rest) = (case map_of sc nm of Some i \<Rightarrow> Some i | None \<Rightarrow> lookupScopes nm rest)"

definition getVar :: "string \<Rightarrow> cstate \<Rightarrow> nat option" where
  "getVar nm st = lookupScopes nm (scopes st)"

text \<open>\<open>declareVar\<close> gives the slot of the variable, or \<open>None\<close> (the source's \<open>null\<close>) when
  there is no scope to declare it in.\<close>

definition declareVar :: "string \<Rightarrow> bool \<Rightarrow> cstate \<Rightarrow> nat option \<times> cstate" where
  "declareVar nm isLocal st =
     (case scopes st of
        [] \<Rightarrow> (None, st)
      | sc # rest \<Rightarrow>
          (case (if isLocal then None else getVar nm st) of
             Some i \<Rightarrow> (Some i, st)
           | None \<Rightarrow> (Some (localVarsIndex st),
                st\<lparr>scopes := ((nm, localVarsIndex st) # sc) # rest,
                   localVarsIndex := localVarsIndex st + 1\<rparr>)))"

definition consumeScratchIndex :: "cstate \<Rightarrow> nat \<times> cstate" where
  "consumeScratchIndex st = (localVarsIndex st, st\<lparr>localVarsIndex := localVarsIndex st + 1\<rparr>)"

text \<open>Modelled from the spec (section 3, function catalogue): function indices follow the
  order imports, defined functions, user-defined functions; \<open>func\<close> gives the index of a
  name.  The compiler asks only for names of the catalogue and for user functions it has
  found in \<open>userDefinedFunctions\<close>.\<close>

fun indexOf :: "string \<Rightarrow> string list \<Rightarrow> nat" where
  "indexOf nm [] = 0"
| "indexOf nm (x # xs) = (if nm = x then 0 else 1 + indexOf nm xs)"

definition allFunctions :: "runtime \<Rightarrow> cstate \<Rightarrow> FuncDef list" where
  "allFunctions R st = importFunctions R @ definedFunctions R @ userDefinedFunctions st"

definition func :: "runtime \<Rightarrow> cstate \<Rightarrow> string \<Rightarrow> nat" where
  "func R st nm = indexOf nm (map fd_name (allFunctions R st))"

definition addUserDefinedFunction :: "string \<Rightarrow> bytes \<Rightarrow> bytes \<Rightarrow> cstate \<Rightarrow> cstate" where
  "addUserDefinedFunction nm ps rs st =
     st\<lparr>userDefinedFunctions := userDefinedFunctions st
        @ [\<lparr>fd_name = nm, fd_type = \<lparr>params = ps, results = rs\<rparr>\<rparr>]\<rparr>"

definition clearUserDefinedFunctions :: "cstate \<Rightarrow> cstate" where
  "clearUserDefinedFunctions st = st\<lparr>userDefinedFunctions := []\<rparr>"

text \<open>\<open>functionBodies[name] = body\<close>: an existing key keeps its place, a new key goes
  last.\<close>

fun setBody :: "string \<Rightarrow> bytes \<Rightarrow> (string \<times> bytes) list \<Rightarrow> (string \<times> bytes) list" where
  "setBody nm b [] = [(nm, b)]"
| "setBody nm b ((k, v) # kvs) = (if k = nm then (k, b) # kvs else (k, v) # setBody nm b kvs)"

definition addFunctionBody :: "string \<Rightarrow> bytes \<Rightarrow> cstate \<Rightarrow> cstate" where
  "addFunctionBody nm b st = st\<lparr>functionBodies := setBody nm b (functionBodies st)\<rparr>"

definition resetFunctionBodies :: "runtime \<Rightarrow> cstate \<Rightarrow> cstate" where
  "resetFunctionBodies R st = st\<lparr>functionBodies := helperBodies R\<rparr>"

definition getFunctionReturnCount :: "runtime \<Rightarrow> cstate \<Rightarrow> string \<Rightarrow> nat" where
  "getFunctionReturnCount R st nm =
     (case find (\<lambda>f. fd_name f = nm) (allFunctions R st) of
        Some f \<Rightarrow> length (results (fd_type f))
      | None \<Rightarrow> 0)"

text \<open>Modelled from the spec (section 3): the signatures of all functions, each kept
  once, in the order of their first use; a signature's key is the signature itself and
  its type index is its place in that list.\<close>

definition dedup :: "'a list \<Rightarrow> 'a list" where
  "dedup xs = foldl (\<lambda>acc x. if x \<in> set acc then acc else acc @ [x]) [] xs"

definition encodeFuncType :: "FuncType \<Rightarrow> bytes" where
  "encodeFuncType t = 0x60 # unsignedLEB (length (params t)) @ params t
     @ unsignedLEB (length (results t)) @ results t"

definition functionTypeList :: "runtime \<Rightarrow> cstate \<Rightarrow> FuncType list" where
  "functionTypeList R st = dedup (map fd_type (allFunctions R st))"

fun typeIndexOf :: "FuncType \<Rightarrow> FuncType list \<Rightarrow> nat option" where
  "typeIndexOf t [] = None"
| "typeIndexOf t (x # xs) = (if t = x then Some 0 else map_option Suc (typeIndexOf t xs))"

definition functionIndices :: "runtime \<Rightarrow> cstate \<Rightarrow> FuncType \<Rightarrow> nat option" where
  "functionIndices R st t = typeIndexOf t (functionTypeList R st)"

section \<open>AST lowering (compiler.ts)\<close>

definition MAX_ITERATIONS :: int where
  "MAX_ITERATIONS = 10000"

definition quoted :: "string \<Rightarrow> string" where
  "quoted s = [CHR 0x22] @ s @ [CHR 0x22]"

fun digits :: "nat \<Rightarrow> nat \<Rightarrow> string" where
  "digits 0 n = []"
| "digits (Suc k) n = (if n < 10 then [char_of (48 + n)] else digits k (n div 10) @ [char_of (48 + n mod 10)])"

text \<open>The decimal text of a count in a message.\<close>

definition showNat :: "nat \<Rightarrow> string" where
  "showNat n = digits (Suc n) n"

definition notDeclared :: "Identifier \<Rightarrow> thrown" where
  "notDeclared ident = ThrownCompilerError (CompilerError
     (''Variable '' @ quoted (id_name ident) @ '' is not declared'')
     (loc_line (id_loc ident)) (loc_column (id_loc ident)) (length (id_name ident)))"

definition comparisonOps :: "string set" where
  "comparisonOps = {''=='', ''~='', ''>'', ''>='', ''<'', ''<=''}"

text \<open>The case \<open>BinaryExpression\<close> of \<open>compileExpression\<close>, from \<open>const nativeOp\<close> on:
  \<open>left\<close> and \<open>right\<close> are the compiled operands.\<close>

definition binaryCode :: "runtime \<Rightarrow> string \<Rightarrow> bytes \<Rightarrow> bytes \<Rightarrow> cstate \<Rightarrow> (bytes \<times> cstate) result" where
  "binaryCode R operator left right st =
     (let nativeOp = nativeBinOps operator in
      if (nativeOp \<noteq> None \<and> nativeOp \<noteq> Some 0) \<and> operator = ''+'' then
        Inr (left @ fn_call (func R st ''is_string'')
          @ right @ fn_call (func R st ''is_string'')
          @ i32_or
          @ if_start valType_i32
            @ left @ right @ fn_call (func R st ''concat'')
          @ if_else
            @ left @ fn_call (func R st ''is_bool'')
            @ right @ fn_call (func R st ''is_bool'')
            @ i32_or
            @ if_start valType_i32
              @ left @ fn_call (func R st ''to_number'') @ fn_call (func R st ''unbox_number'')
              @ right @ fn_call (func R st ''to_number'') @ fn_call (func R st ''unbox_number'')
              @ f64_add @ fn_call (func R st ''box_number'')
            @ if_else
              @ left @ fn_call (func R st ''unbox_number'')
              @ right @ fn_call (func R st ''unbox_number'')
              @ f64_add @ fn_call (func R st ''box_number'')
            @ if_end
          @ if_end, st)
      else
        (case nativeOp of
           Some opc \<Rightarrow>
             Inr (left @ fn_call (func R st ''unbox_number'')
               @ right @ fn_call (func R st ''unbox_number'')
               @ [opc]
               @ (if operator \<in> comparisonOps then fn_call (func R st ''box_bool'')
                  else fn_call (func R st ''box_number'')), st)
         | None \<Rightarrow>
             if operator = ''%'' then
               Inr (left @ fn_call (func R st ''unbox_number'')
                 @ right @ fn_call (func R st ''unbox_number'')
                 @ fn_call (func R st ''mod'') @ fn_call (func R st ''box_number''), st)
             else if operator = ''^'' then
               Inr (left @ fn_call (func R st ''unbox_number'')
                 @ right @ fn_call (func R st ''unbox_number'')
                 @ fn_call (func R st ''math_pow'') @ fn_call (func R st ''box_number''), st)
             else if operator = ''and'' then
               (case consumeScratchIndex st of (scratch, st1) \<Rightarrow>
                  Inr (left @ local_set scratch @ local_get scratch
                    @ fn_call (func R st1 ''is_truthy'')
                    @ if_start valType_i32
                      @ right
                    @ if_else
                      @ local_get scratch
                    @ if_end, st1))
             else if operator = ''or'' then
               (case consumeScratchIndex st of (scratch, st1) \<Rightarrow>
                  Inr (left @ local_set scratch @ local_get scratch
                    @ fn_call (func R st1 ''is_truthy'')
                    @ if_start valType_i32
                      @ local_get scratch
                    @ if_else
                      @ right
                    @ if_end, st1))
             else throw (ThrownError (''Unsupported binary operator: '' @ operator)) st))"

text \<open>The sign flip of \<open>-expr.argument.value\<close> on the bit pattern of the number.\<close>

definition negate :: "f64bits \<Rightarrow> f64bits" where
  "negate v = v XOR 0x8000000000000000"

fun compileExpression :: "runtime \<Rightarrow> Expression \<Rightarrow> cstate \<Rightarrow> (bytes \<times> cstate) result"
  and compileArgs :: "runtime \<Rightarrow> Expression list \<Rightarrow> cstate \<Rightarrow> (bytes \<times> cstate) result" where
  "compileExpression R (StringLiteral v) st =
     (case getOffset v (strings st) of (offset, tbl) \<Rightarrow>
        Inr (i32_const (int offset) @ i32_const (int (length (utf8 v)))
          @ fn_call (func R st ''box_string''), st\<lparr>strings := tbl\<rparr>))"
| "compileExpression R (NumberLiteral v) st =
     Inr (f64_const v @ fn_call (func R st ''box_number''), st)"
| "compileExpression R (BooleanLiteral b) st =
     Inr (i32_const (if b then 1 else 0) @ fn_call (func R st ''box_bool''), st)"
| "compileExpression R (IdentifierExpression ident) st =
     (case getVar (id_name ident) st of
        None \<Rightarrow> throw (notDeclared ident) st
      | Some i \<Rightarrow> Inr (local_get i, st))"
| "compileExpression R (GroupingExpression e) st = compileExpression R e st"
| "compileExpression R (BinaryExpression operator l r) st =
     bind (compileExpression R l st) (\<lambda>(left, st1).
     bind (compileExpression R r st1) (\<lambda>(right, st2).
       binaryCode R operator left right st2))"
| "compileExpression R (UnaryExpression operator arg) st =
     (if operator = ''+'' then compileExpression R arg st
      else if operator = ''-'' then
        (case arg of
           NumberLiteral v \<Rightarrow> Inr (f64_const (negate v) @ fn_call (func R st ''box_number''), st)
         | _ \<Rightarrow> bind (compileExpression R arg st) (\<lambda>(code, st1).
                  Inr (code @ fn_call (func R st1 ''unbox_number'') @ f64_neg
                    @ fn_call (func R st1 ''box_number''), st1)))
      else if operator = ''~'' then
        bind (compileExpression R arg st) (\<lambda>(code, st1).
          Inr (code @ fn_call (func R st1 ''unbox_number'') @ f64_const 0 @ f64_eq
            @ fn_call (func R st1 ''box_bool''), st1))
      else throw (ThrownError (''Unsupported unary operator: '' @ operator)) st)"
| "compileExpression R (FunctionCallExpression name args loc) st =
     (let f = find (\<lambda>fn. fd_name fn = id_name name) (userDefinedFunctions st) in
      if id_name name = ''is_string'' then
        (if length args \<noteq> 1
         then throw (ThrownCompilerError (CompilerError ''is_string expects 1 argument''
                (loc_line loc) (loc_column loc) (length (id_name name)))) st
         else bind (compileArgs R args st) (\<lambda>(code, st1).
                Inr (code @ fn_call (func R st1 ''is_string'') @ fn_call (func R st1 ''box_bool''), st1)))
      else
        (case f of
           None \<Rightarrow> throw (ThrownCompilerError (CompilerError
                (''Function '' @ quoted (id_name name) @ '' is not defined'')
                (loc_line (id_loc name)) (loc_column (id_loc name)) (length (id_name name)))) st
         | Some fd \<Rightarrow>
             if length (params (fd_type fd)) \<noteq> length args
             then throw (ThrownCompilerError (CompilerError
                (''Function '' @ quoted (id_name name) @ '' expects ''
                   @ showNat (length (params (fd_type fd))) @ '' arguments, but got ''
                   @ showNat (length args))
                (loc_line (id_loc name)) (loc_column (id_loc name)) (length (id_name name)))) st
             else bind (compileArgs R args st) (\<lambda>(code, st1).
                Inr (code @ fn_call (func R st1 (id_name name)), st1))))"
| "compileExpression R OtherExpression st = throw (ThrownError ''Something went wrong'') st"
| "compileArgs R [] st = Inr ([], st)"
| "compileArgs R (a # as) st =
     bind (compileExpression R a st) (\<lambda>(code, st1).
     bind (compileArgs R as st1) (\<lambda>(codes, st2). Inr (code @ codes, st2)))"

text \<open>The cases \<open>LocalAssignStatement\<close> and \<open>AssignStatement\<close> of \<open>compileStatement\<close>,
  also run on the assignment of a \<open>for\<close> statement.\<close>

definition compileAssign ::
  "runtime \<Rightarrow> bool \<Rightarrow> Identifier \<Rightarrow> Expression \<Rightarrow> cstate \<Rightarrow> (bytes \<times> cstate) result" where
  "compileAssign R isLocal identifier expression st =
     bind (compileExpression R expression st) (\<lambda>(code, st1).
       case declareVar (id_name identifier) isLocal st1 of
         (None, st2) \<Rightarrow> throw (notDeclared identifier) st2
       | (Some idx, st2) \<Rightarrow> Inr (code @ local_set idx, st2))"

text \<open>The bit pattern of the number 1.\<close>

definition f64_one :: f64bits where
  "f64_one = 0x3FF0000000000000"

text \<open>The loop over \<open>stmt.elifBranches\<close> runs from the last branch down to the first, so
  \<open>compileElifs\<close> handles the tail of the list before its head.\<close>

fun compileStatement :: "runtime \<Rightarrow> Statement \<Rightarrow> cstate \<Rightarrow> (bytes \<times> cstate) result"
  and compileStatements :: "runtime \<Rightarrow> Statement list \<Rightarrow> cstate \<Rightarrow> (bytes \<times> cstate) result"
  and compileElifs ::
    "runtime \<Rightarrow> (Expression \<times> Statement list) list \<Rightarrow> bytes \<Rightarrow> cstate \<Rightarrow> (bytes \<times> cstate) result" where
  "compileStatement R (PrintlnStatement e) st =
     bind (compileExpression R e st) (\<lambda>(code, st1).
       Inr (code @ fn_call (func R st1 ''println''), st1))"
| "compileStatement R (PrintStatement e) st =
     bind (compileExpression R e st) (\<lambda>(code, st1).
       Inr (code @ fn_call (func R st1 ''print''), st1))"
| "compileStatement R (LocalAssignStatement identifier expression) st =
     compileAssign R True identifier expression st"
| "compileStatement R (AssignStatement identifier expression) st =
     compileAssign R False identifier expression st"
| "compileStatement R (IfStatement c thenStmts elifBranches elseStmts) st =
     bind (compileExpression R c st) (\<lambda>(condition, st1).
     bind (compileStatements R thenStmts (enterScope st1)) (\<lambda>(thenBranch, st2).
       let st3 = exitScope st2;
           code = condition @ fn_call (func R st3 ''is_truthy'') @ if_start blockType_none @ thenBranch
       in
     bind (case elseStmts of
             None \<Rightarrow> Inr ([], st3)
           | Some stmts \<Rightarrow>
               bind (compileStatements R stmts (enterScope st3)) (\<lambda>(elseBlock, st4).
                 Inr (elseBlock, exitScope st4))) (\<lambda>(elseBlock, st5).
     bind (compileElifs R elifBranches elseBlock st5) (\<lambda>(elseBlock', st6).
       Inr (code @ if_else @ elseBlock' @ if_end, st6)))))"
| "compileStatement R (WhileStatement c stmts) st =
     bind (compileStatements R stmts (enterScope (enterScope st))) (\<lambda>(body, st1).
     bind (compileExpression R c (exitScope st1)) (\<lambda>(condition, st2).
       case consumeScratchIndex (exitScope st2) of (counterIndex, st3) \<Rightarrow>
         Inr (i32_const 0
           @ local_set counterIndex
           @ block_start
           @ loop_start
             @ local_get counterIndex
             @ i32_const MAX_ITERATIONS
             @ i32_ge_u
             @ if_start blockType_none
               @ misc_unreachable
             @ if_end
             @ local_get counterIndex
             @ i32_const 1
             @ i32_add
             @ local_set counterIndex
             @ condition
             @ fn_call (func R st3 ''is_truthy'')
             @ i32_eqz
             @ loop_br_if 1
             @ body
             @ loop_br 0
           @ loop_end
           @ block_end, st3)))"
| "compileStatement R (ForStatement isLocal identifier expression condition increment stmts) st =
     bind (compileAssign R isLocal identifier expression (enterScope st)) (\<lambda>(init, st1).
       case getVar (id_name identifier) st1 of
         None \<Rightarrow> throw (notDeclared identifier) st1
       | Some loopVar \<Rightarrow>
     bind (compileExpression R condition (enterScope st1)) (\<lambda>(cond, st2).
     bind (case increment of
             Some inc \<Rightarrow> compileExpression R inc st2
           | None \<Rightarrow> Inr (f64_const f64_one @ fn_call (func R st2 ''box_number''), st2)) (\<lambda>(step, st3).
     bind (compileStatements R stmts st3) (\<lambda>(loopBody, st4).
       case consumeScratchIndex (exitScope (exitScope st4)) of (isDescending, st5) \<Rightarrow>
       case consumeScratchIndex st5 of (counterIndex, st6) \<Rightarrow>
         Inr (i32_const 0
           @ local_set counterIndex
           @ init
           @ step
           @ fn_call (func R st6 ''unbox_number'')
           @ f64_const 0
           @ f64_lt
           @ local_set isDescending
           @ block_start
           @ loop_start
             @ local_get counterIndex
             @ i32_const MAX_ITERATIONS
             @ i32_ge_u
             @ if_start blockType_none
               @ misc_unreachable
             @ if_end
             @ local_get counterIndex
             @ i32_const 1
             @ i32_add
             @ local_set counterIndex
             @ local_get isDescending
             @ if_start valType_i32
               @ local_get loopVar
               @ fn_call (func R st6 ''unbox_number'')
               @ cond
               @ fn_call (func R st6 ''unbox_number'')
               @ f64_lt
             @ if_else
               @ local_get loopVar
               @ fn_call (func R st6 ''unbox_number'')
               @ cond
               @ fn_call (func R st6 ''unbox_number'')
               @ f64_gt
             @ if_end
             @ loop_br_if 1
             @ loopBody
             @ local_get loopVar
             @ fn_call (func R st6 ''unbox_number'')
             @ step
             @ fn_call (func R st6 ''unbox_number'')
             @ f64_add
             @ fn_call (func R st6 ''box_number'')
             @ local_set loopVar
             @ loop_br 0
           @ loop_end
           @ block_end, st6)))))"
| "compileStatement R (FunctionDeclStatement name ps stmts) st =
     (if list_ex (\<lambda>f. fd_name f = id_name name) (userDefinedFunctions st)
      then throw (ThrownCompilerError (CompilerError
             (''Function '' @ quoted (id_name name) @ '' is already defined'')
             (loc_line (id_loc name)) (loc_column (id_loc name)) (length (id_name name)))) st
      else
        (let paramTypes = map (\<lambda>p. valType_i32) ps;
             st1 = addUserDefinedFunction (id_name name) paramTypes [valType_i32] st;
             prevIndex = localVarsIndex st1;
             scopesTmp = scopes st1;
             st2 = foldl (\<lambda>s p. snd (declareVar (id_name p) True s))
                     (clearScopes (setLocalVarsIndex 0 st1)) ps
         in
         bind (compileStatements R stmts st2) (\<lambda>(code, st3).
           let bodyBytes = code @ fn_call (func R st3 ''box_nil'') @ fn_return;
               localDecls = getLocalDecls R st3;
               st4 = setScopes scopesTmp (setLocalVarsIndex prevIndex st3)
           in Inr ([], addFunctionBody (id_name name) (localDecls @ bodyBytes @ control_end) st4))))"
| "compileStatement R (ReturnStatement e) st =
     bind (compileExpression R e st) (\<lambda>(code, st1). Inr (code @ fn_return, st1))"
| "compileStatement R (ExpressionStatement e) st =
     (case e of
        FunctionCallExpression name args loc \<Rightarrow>
          bind (compileExpression R e st) (\<lambda>(code, st1).
            Inr (if getFunctionReturnCount R st1 (id_name name) > 0 then code @ misc_drop else code, st1))
      | _ \<Rightarrow> bind (compileExpression R e st) (\<lambda>(code, st1). Inr (code @ misc_drop, st1)))"
| "compileStatement R OtherStatement st = throw (ThrownError ''Something went wrong'') st"
| "compileStatements R [] st = Inr ([], st)"
| "compileStatements R (stmt # rest) st =
     bind (compileStatement R stmt st) (\<lambda>(code, st1).
     bind (compileStatements R rest st1) (\<lambda>(codes, st2). Inr (code @ codes, st2)))"
| "compileElifs R [] elseBlock st = Inr (elseBlock, st)"
| "compileElifs R ((c, stmts) # rest) elseBlock st =
     bind (compileElifs R rest elseBlock st) (\<lambda>(elseBlock', st1).
     bind (compileExpression R c st1) (\<lambda>(condition, st2).
     bind (compileStatements R stmts (enterScope st2)) (\<lambda>(elifBranch, st3).
       let st4 = exitScope st3 in
       Inr (condition @ fn_call (func R st4 ''is_truthy'') @ if_start blockType_none
         @ elifBranch @ if_else @ elseBlock' @ if_end, st4))))"

definition mainFuncBody :: "runtime \<Rightarrow> AST \<Rightarrow> cstate \<Rightarrow> (bytes \<times> cstate) result" where
  "mainFuncBody R ast st =
     bind (compileStatements R (ast_body ast) st) (\<lambda>(instructions, st1).
       Inr (getLocalDecls R st1 @ instructions @ control_end, st1))"

definition header :: bytes where
  "header = [0x00, 0x61, 0x73, 0x6D, 0x01, 0x00, 0x00, 0x00]"

text \<open>The three \<open>flatMap\<close> calls of \<open>_compile\<close> that look up a type index, and the two that
  look up a function body; each throws a plain \<open>Error\<close> when the lookup fails.\<close>

fun typeIndexEntries :: "runtime \<Rightarrow> cstate \<Rightarrow> string \<Rightarrow> FuncDef list \<Rightarrow> bytes result" where
  "typeIndexEntries R st what [] = Inr []"
| "typeIndexEntries R st what (d # ds) =
     (case functionIndices R st (fd_type d) of
        None \<Rightarrow> throw (ThrownError (''Type not found for '' @ what @ '' '' @ quoted (fd_name d))) st
      | Some typeIndex \<Rightarrow>
          bind (typeIndexEntries R st what ds) (\<lambda>more. Inr (unsignedLEB typeIndex @ more)))"

fun importEntries :: "runtime \<Rightarrow> cstate \<Rightarrow> FuncDef list \<Rightarrow> bytes result" where
  "importEntries R st [] = Inr []"
| "importEntries R st (imp # imps) =
     (case functionIndices R st (fd_type imp) of
        None \<Rightarrow> throw (ThrownError (''Type not found for import '' @ quoted (fd_name imp))) st
      | Some typeIndex \<Rightarrow>
          bind (importEntries R st imps) (\<lambda>more.
            Inr (encodeString ''env'' @ encodeString (fd_name imp) @ [0x00]
              @ unsignedLEB typeIndex @ more)))"

fun codeEntries :: "cstate \<Rightarrow> FuncDef list \<Rightarrow> bytes result" where
  "codeEntries st [] = Inr []"
| "codeEntries st (d # ds) =
     (case map_of (functionBodies st) (fd_name d) of
        None \<Rightarrow> throw (ThrownError (''Function body for '' @ quoted (fd_name d) @ '' not found'')) st
      | Some body \<Rightarrow>
          bind (codeEntries st ds) (\<lambda>more. Inr (unsignedLEB (length body) @ body @ more)))"

text \<open>The source's \<open>_compile\<close>.  \<open>prev\<close> is the module-level state left by whatever ran
  before; the four resets overwrite all of it.\<close>

definition compile_inner :: "runtime \<Rightarrow> cstate \<Rightarrow> AST \<Rightarrow> StringTable \<Rightarrow> (bytes \<times> cstate) result" where
  "compile_inner R prev ast tbl =
     (let st0 = resetFunctionBodies R (clearUserDefinedFunctions (setLocalVarsIndex 0
                  (clearScopes (prev\<lparr>strings := tbl\<rparr>))))
      in
      bind (mainFuncBody R ast st0) (\<lambda>(mainFunc, st1).
        let st2 = addFunctionBody ''main'' mainFunc st1 in
      bind (typeIndexEntries R st2 ''function'' (definedFunctions R)) (\<lambda>definedIdx.
      bind (typeIndexEntries R st2 ''user-defined function'' (userDefinedFunctions st2)) (\<lambda>userIdx.
        let funcSection = emitSection 3
              (unsignedLEB (length (definedFunctions R) + length (userDefinedFunctions st2))
                @ definedIdx @ userIdx);
            typeSection = emitSection 1
              (unsignedLEB (length (functionTypeList R st2))
                @ concat (map encodeFuncType (functionTypeList R st2)))
        in
      bind (importEntries R st2 (importFunctions R)) (\<lambda>imports.
        let importSection = emitSection 2 (unsignedLEB (length (importFunctions R)) @ imports);
            memorySection = emitSection 5 [0x01, 0x00, 0x10];
            exportSection = emitSection 7
              (unsignedLEB 2
                @ encodeString ''main'' @ [0x00] @ unsignedLEB (func R st2 ''main'')
                @ encodeString ''memory'' @ [0x02, 0x00])
        in
      bind (codeEntries st2 (definedFunctions R)) (\<lambda>definedBodies.
      bind (codeEntries st2 (userDefinedFunctions st2)) (\<lambda>userBodies.
        let codeSection = emitSection 10
              (unsignedLEB (length (remdups (map fst (functionBodies st2))))
                @ definedBodies @ userBodies);
            stringBytes = getBytes (strings st2);
            dataSection = emitSection 11
              ([0x01, 0x00] @ i32_const 0 @ control_end
                @ unsignedLEB (length stringBytes) @ stringBytes);
            globalSection = emitSection 6
              ([0x01, valType_i32, 0x01] @ i32_const (int (length stringBytes) + 1) @ control_end)
        in Inr (header @ typeSection @ importSection @ funcSection @ memorySection
                 @ globalSection @ exportSection @ codeSection @ dataSection, st2))))))))"

record CompileResult =
  cr_bytes :: bytes
  cr_error :: "CompilerError option"
  cr_strings :: bytes

text \<open>The \<open>try\<close> block of \<open>compile\<close>; the argument is \<open>None\<close> for a \<open>null\<close> AST.\<close>

definition tryBlock :: "runtime \<Rightarrow> cstate \<Rightarrow> AST option \<Rightarrow> StringTable \<Rightarrow> (bytes \<times> cstate) result" where
  "tryBlock R prev ast tbl =
     (case ast of
        None \<Rightarrow> Inl (ThrownError ''Invalid AST: Expected a Program node'', tbl)
      | Some a \<Rightarrow>
          if ast_type a \<noteq> ''Program''
          then Inl (ThrownError ''Invalid AST: Expected a Program node'', tbl)
          else compile_inner R prev a tbl)"

text \<open>\<open>compile\<close>: the \<open>catch\<close> keeps a \<open>CompilerError\<close> as the returned error and only
  logs any other exception.\<close>

definition compile :: "runtime \<Rightarrow> cstate \<Rightarrow> AST option \<Rightarrow> CompileResult" where
  "compile R prev ast =
     (let tbl = [] in
      case tryBlock R prev ast tbl of
        Inr (bs, st) \<Rightarrow> \<lparr>cr_bytes = bs, cr_error = None, cr_strings = getBytes (strings st)\<rparr>
      | Inl (ThrownCompilerError err, tbl') \<Rightarrow>
          \<lparr>cr_bytes = [], cr_error = Some err, cr_strings = getBytes tbl'\<rparr>
      | Inl (ThrownError msg, tbl') \<Rightarrow>
          \<lparr>cr_bytes = [], cr_error = None, cr_strings = getBytes tbl'\<rparr>)"

text \<open>Compilation succeeds when the \<open>try\<close> block runs to its end without a throw.\<close>

definition compileSucceeds :: "runtime \<Rightarrow> cstate \<Rightarrow> AST option \<Rightarrow> bool" where
  "compileSucceeds R prev ast = (case tryBlock R prev ast [] of Inr r \<Rightarrow> True | Inl e \<Rightarrow> False)"

section \<open>The instructions the compiler emits\<close>

text \<open>The structured view of the emitted code: the instructions of section 6.3 of the
  spec as a tree, and their binary encoding.  \<open>Plain b\<close> is an instruction of the one
  byte \<open>b\<close> without an immediate (\<open>unreachable\<close>, \<open>return\<close>, \<open>drop\<close> and the numeric
  instructions).  \<open>Probe\<close> emits no byte: it marks a place in the code so that the
  number of times control passes it can be counted.\<close>

datatype instr =
    Plain byte
  | Block byte "instr list"
  | Loop byte "instr list"
  | If byte "instr list" "instr list option"
  | Br nat
  | BrIf nat
  | Call nat
  | LocalGet nat
  | LocalSet nat
  | I32Const int
  | F64Const f64bits
  | Probe

fun encode :: "instr \<Rightarrow> bytes" and encodes :: "instr list \<Rightarrow> bytes" where
  "encode (Plain b) = [b]"
| "encode (Block bt body) = [0x02, bt] @ encodes body @ [0x0B]"
| "encode (Loop bt body) = [0x03, bt] @ encodes body @ [0x0B]"
| "encode (If bt thn els) =
     [0x04, bt] @ encodes thn
       @ (case els of None \<Rightarrow> [] | Some body \<Rightarrow> [0x05] @ encodes body) @ [0x0B]"
| "encode (Br d) = 0x0C # unsignedLEB d"
| "encode (BrIf d) = 0x0D # unsignedLEB d"
| "encode (Call i) = 0x10 # unsignedLEB i"
| "encode (LocalGet i) = 0x20 # unsignedLEB i"
| "encode (LocalSet i) = 0x21 # unsignedLEB i"
| "encode (I32Const n) = 0x41 # signedLEB n"
| "encode (F64Const v) = f64_const v"
| "encode Probe = []"
| "encodes [] = []"
| "encodes (i # is) = encode i @ encodes is"

text \<open>The opcodes of WebAssembly 1.0 that stand alone, without an immediate, and touch no
  local: \<open>unreachable\<close>, \<open>nop\<close>, \<open>return\<close>, \<open>drop\<close>, \<open>select\<close> and the numeric
  instructions 0x45 to 0xBF.\<close>

definition isPlain :: "byte \<Rightarrow> bool" where
  "isPlain b = (b \<in> {0x00, 0x01, 0x0F, 0x1A, 0x1B} \<or> (0x45 \<le> unat b \<and> unat b \<le> 0xBF))"

text \<open>\<open>below n\<close>: the code has no probe, every \<open>Plain\<close> in it is one of these opcodes, and
  it reads and writes only locals under \<open>n\<close>.\<close>

fun below :: "nat \<Rightarrow> instr \<Rightarrow> bool" where
  "below n (Plain b) = isPlain b"
| "below n (Block bt body) = list_all (below n) body"
| "below n (Loop bt body) = list_all (below n) body"
| "below n (If bt thn els) =
     (list_all (below n) thn \<and> (case els of None \<Rightarrow> True | Some body \<Rightarrow> list_all (below n) body))"
| "below n (LocalGet i) = (i < n)"
| "below n (LocalSet i) = (i < n)"
| "below n Probe = False"
| "below n i = True"

definition coded :: "nat \<Rightarrow> bytes \<Rightarrow> bool" where
  "coded n code = (\<exists>is. code = encodes is \<and> list_all (below n) is)"

definition wfScopes :: "cstate \<Rightarrow> bool" where
  "wfScopes st = (\<forall>sc \<in> set (scopes st). \<forall>p \<in> set sc. snd p < localVarsIndex st)"

text \<open>The instruction trees of the binary operators, over the trees \<open>L\<close> and \<open>Rr\<close> of the
  operands and the indices of the helpers.\<close>

definition plusInstrs :: "(string \<Rightarrow> nat) \<Rightarrow> instr list \<Rightarrow> instr list \<Rightarrow> instr list" where
  "plusInstrs f L Rr =
     L @ [Call (f ''is_string'')] @ Rr
      @ [Call (f ''is_string''), Plain 0x72,
         If valType_i32
           (L @ Rr @ [Call (f ''concat'')])
           (Some (L @ [Call (f ''is_bool'')] @ Rr
              @ [Call (f ''is_bool''), Plain 0x72,
                 If valType_i32
                   (L @ [Call (f ''to_number''), Call (f ''unbox_number'')]
                      @ Rr @ [Call (f ''to_number''), Call (f ''unbox_number''),
                              Plain 0xA0, Call (f ''box_number'')])
                   (Some (L @ [Call (f ''unbox_number'')]
                      @ Rr @ [Call (f ''unbox_number''),
                              Plain 0xA0, Call (f ''box_number'')]))]))]"

definition andInstrs :: "(string \<Rightarrow> nat) \<Rightarrow> nat \<Rightarrow> instr list \<Rightarrow> instr list \<Rightarrow> instr list" where
  "andInstrs f scratch L Rr =
     L @ [LocalSet scratch, LocalGet scratch, Call (f ''is_truthy''),
          If valType_i32 Rr (Some [LocalGet scratch])]"

definition orInstrs :: "(string \<Rightarrow> nat) \<Rightarrow> nat \<Rightarrow> instr list \<Rightarrow> instr list \<Rightarrow> instr list" where
  "orInstrs f scratch L Rr =
     L @ [LocalSet scratch, LocalGet scratch, Call (f ''is_truthy''),
          If valType_i32 [LocalGet scratch] (Some Rr)]"

definition nativeInstrs :: "(string \<Rightarrow> nat) \<Rightarrow> instr list \<Rightarrow> instr list \<Rightarrow> instr list \<Rightarrow> instr list" where
  "nativeInstrs f ops L Rr =
     L @ [Call (f ''unbox_number'')] @ Rr @ [Call (f ''unbox_number'')] @ ops"

text \<open>The guard at the head of each loop iteration and the trees of the two loops.\<close>

definition guardInstrs :: "nat \<Rightarrow> instr list" where
  "guardInstrs counter =
     [LocalGet counter, I32Const MAX_ITERATIONS, Plain 0x4F,
      If blockType_none [Plain 0x00] None,
      LocalGet counter, I32Const 1, Plain 0x6A, LocalSet counter]"

definition whileInstrs :: "(string \<Rightarrow> nat) \<Rightarrow> nat \<Rightarrow> instr list \<Rightarrow> instr list \<Rightarrow> instr list" where
  "whileInstrs f counter C B =
     [I32Const 0, LocalSet counter,
      Block blockType_none
        [Loop blockType_none
           (guardInstrs counter
            @ C @ [Call (f ''is_truthy''), Plain 0x45, BrIf 1]
            @ B
            @ [Br 0])]]"

definition forInstrs ::
  "(string \<Rightarrow> nat) \<Rightarrow> nat \<Rightarrow> nat \<Rightarrow> nat \<Rightarrow> instr list \<Rightarrow> instr list \<Rightarrow> instr list \<Rightarrow> instr list
     \<Rightarrow> instr list" where
  "forInstrs f counter isDescending loopVar INIT STEP COND B =
     [I32Const 0, LocalSet counter]
     @ INIT
     @ STEP @ [Call (f ''unbox_number''), F64Const 0, Plain 0x63, LocalSet isDescending,
      Block blockType_none
        [Loop blockType_none
           (guardInstrs counter
            @ [LocalGet isDescending,
               If valType_i32
                 ([LocalGet loopVar, Call (f ''unbox_number'')] @ COND
                    @ [Call (f ''unbox_number''), Plain 0x63])
                 (Some ([LocalGet loopVar, Call (f ''unbox_number'')] @ COND
                    @ [Call (f ''unbox_number''), Plain 0x64])),
               BrIf 1]
            @ B
            @ [LocalGet loopVar, Call (f ''unbox_number'')] @ STEP
            @ [Call (f ''unbox_number''), Plain 0xA0, Call (f ''box_number''),
               LocalSet loopVar, Br 0])]]"

text \<open>The tree of an \<open>elif\<close> chain: each branch is its condition, the call of
  \<open>is_truthy\<close> and an \<open>if\<close> whose else arm holds the rest of the chain; after the last
  branch comes the else block \<open>E\<close>.\<close>

fun chainInstrs :: "(nat \<times> instr list \<times> instr list) list \<Rightarrow> instr list \<Rightarrow> instr list" where
  "chainInstrs [] E = E"
| "chainInstrs ((t, C, B) # rest) E =
     C @ [Call t, If blockType_none B (Some (chainInstrs rest E))]"

text \<open>\<open>elifChain R branches trees st st'\<close>: the \<open>elif\<close> branches \<open>(c, stmts)\<close> of the source
  have the trees \<open>(t, C, B)\<close>, compiled from the last branch to the first, starting in
  the state \<open>st\<close> and ending in \<open>st'\<close>.  Each condition is compiled in the state the
  branch after it has left, each body in the state that follows with a new empty scope
  pushed, the scope is popped after the body, and \<open>t\<close> is the index of \<open>is_truthy\<close>.\<close>

fun elifChain ::
  "runtime \<Rightarrow> (Expression \<times> Statement list) list \<Rightarrow> (nat \<times> instr list \<times> instr list) list
     \<Rightarrow> cstate \<Rightarrow> cstate \<Rightarrow> bool" where
  "elifChain R [] [] st st' = (st' = st)"
| "elifChain R ((c, stmts) # rest) ((t, C, B) # trees) st st' =
     (\<exists>s1 s2 s3. elifChain R rest trees st s1
        \<and> compileExpression R c s1 = Inr (encodes C, s2)
        \<and> compileStatements R stmts (enterScope s2) = Inr (encodes B, s3)
        \<and> st' = exitScope s3
        \<and> t = func R st' ''is_truthy'')"
| "elifChain R branches trees st st' = False"

text \<open>The state in which the body of a function is compiled: the function is
  registered, the slot counter is 0, and the parameters are declared in a single new
  scope.\<close>

definition functionEntry :: "Identifier \<Rightarrow> Identifier list \<Rightarrow> cstate \<Rightarrow> cstate" where
  "functionEntry name ps st =
     foldl (\<lambda>s p. snd (declareVar (id_name p) True s))
       (clearScopes (setLocalVarsIndex 0
          (addUserDefinedFunction (id_name name) (map (\<lambda>p. valType_i32) ps) [valType_i32] st))) ps"

section \<open>Running the emitted code\<close>

text \<open>An interpreter for the instruction trees, after the execution rules of
  WebAssembly 1.0 for the instructions of section 6.3 of the spec.  A function call is
  not followed into the callee: what a callee does to the operand stack and to the
  store (the linear memory and the global) is a parameter, since every activation has
  locals of its own.  The same holds for the f64 instructions.  \<open>probes\<close> counts the
  passages of \<open>Probe\<close>.  The first argument bounds the nesting of blocks and the number of
  loop iterations; \<open>Timeout\<close> is the outcome when it is used up or a callee does not
  return.\<close>

datatype val = I32 "32 word" | F64 f64bits

record 'g config =
  locals :: "nat \<Rightarrow> val"
  stack :: "val list"
  store :: 'g
  probes :: nat

datatype 'g callres = Returns "val list" 'g | Traps | Diverges

record 'g env =
  callee :: "nat \<Rightarrow> val list \<Rightarrow> 'g \<Rightarrow> 'g callres"
  numeric :: "byte \<Rightarrow> val list \<Rightarrow> val list option"

datatype 'g outcome =
    Normal "'g config"
  | Breaking nat "'g config"
  | Returning "'g config"
  | Trapped "'g config"
  | Timeout "'g config"

fun config_of :: "'g outcome \<Rightarrow> 'g config" where
  "config_of (Normal c) = c"
| "config_of (Breaking d c) = c"
| "config_of (Returning c) = c"
| "config_of (Trapped c) = c"
| "config_of (Timeout c) = c"

definition arity :: "byte \<Rightarrow> nat" where
  "arity bt = (if bt = blockType_none then 0 else 1)"

definition bool32 :: "bool \<Rightarrow> val" where
  "bool32 b = I32 (if b then 1 else 0)"

text \<open>An instruction of one byte: \<open>unreachable\<close>, \<open>return\<close>, \<open>drop\<close>, \<open>i32.eqz\<close>,
  \<open>i32.ge_u\<close>, \<open>i32.add\<close>, \<open>i32.or\<close>; any other is handed to \<open>numeric\<close>.\<close>

definition plain :: "'g env \<Rightarrow> byte \<Rightarrow> 'g config \<Rightarrow> 'g outcome" where
  "plain E b c =
     (if b = 0x00 then Trapped c
      else if b = 0x0F then Returning c
      else if b = 0x1A then (case stack c of v # s \<Rightarrow> Normal (c\<lparr>stack := s\<rparr>) | _ \<Rightarrow> Trapped c)
      else if b = 0x45 then
        (case stack c of I32 v # s \<Rightarrow> Normal (c\<lparr>stack := bool32 (v = 0) # s\<rparr>) | _ \<Rightarrow> Trapped c)
      else if b = 0x4F then
        (case stack c of
           I32 y # I32 x # s \<Rightarrow> Normal (c\<lparr>stack := bool32 (y \<le> x) # s\<rparr>)
         | _ \<Rightarrow> Trapped c)
      else if b = 0x6A then
        (case stack c of I32 y # I32 x # s \<Rightarrow> Normal (c\<lparr>stack := I32 (x + y) # s\<rparr>) | _ \<Rightarrow> Trapped c)
      else if b = 0x72 then
        (case stack c of I32 y # I32 x # s \<Rightarrow> Normal (c\<lparr>stack := I32 (x OR y) # s\<rparr>) | _ \<Rightarrow> Trapped c)
      else (case numeric E b (stack c) of Some s \<Rightarrow> Normal (c\<lparr>stack := s\<rparr>) | None \<Rightarrow> Trapped c))"

text \<open>\<open>exec1\<close> runs one instruction and \<open>exec\<close> a sequence.  A branch to the block
  itself ends the block and keeps the results above the operand stack the block was
  entered with; a branch to a loop starts the loop again; a branch further out goes on
  one level up.\<close>

fun exec1 :: "nat \<Rightarrow> 'g env \<Rightarrow> instr \<Rightarrow> 'g config \<Rightarrow> 'g outcome"
  and exec :: "nat \<Rightarrow> 'g env \<Rightarrow> instr list \<Rightarrow> 'g config \<Rightarrow> 'g outcome" where
  "exec1 0 E i c = Timeout c"
| "exec1 (Suc n) E Probe c = Normal (c\<lparr>probes := probes c + 1\<rparr>)"
| "exec1 (Suc n) E (Plain b) c = plain E b c"
| "exec1 (Suc n) E (Block bt body) c =
     (case exec n E body c of
        Breaking 0 c' \<Rightarrow> Normal (c'\<lparr>stack := take (arity bt) (stack c') @ stack c\<rparr>)
      | Breaking (Suc d) c' \<Rightarrow> Breaking d c'
      | out \<Rightarrow> out)"
| "exec1 (Suc n) E (Loop bt body) c =
     (case exec n E body c of
        Breaking 0 c' \<Rightarrow> exec1 n E (Loop bt body) (c'\<lparr>stack := stack c\<rparr>)
      | Breaking (Suc d) c' \<Rightarrow> Breaking d c'
      | out \<Rightarrow> out)"
| "exec1 (Suc n) E (If bt thn els) c =
     (case stack c of
        I32 v # s \<Rightarrow>
          (case exec n E (if v \<noteq> 0 then thn else (case els of None \<Rightarrow> [] | Some body \<Rightarrow> body))
                  (c\<lparr>stack := s\<rparr>) of
             Breaking 0 c' \<Rightarrow> Normal (c'\<lparr>stack := take (arity bt) (stack c') @ s\<rparr>)
           | Breaking (Suc d) c' \<Rightarrow> Breaking d c'
           | out \<Rightarrow> out)
      | _ \<Rightarrow> Trapped c)"
| "exec1 (Suc n) E (Br d) c = Breaking d c"
| "exec1 (Suc n) E (BrIf d) c =
     (case stack c of
        I32 v # s \<Rightarrow> if v \<noteq> 0 then Breaking d (c\<lparr>stack := s\<rparr>) else Normal (c\<lparr>stack := s\<rparr>)
      | _ \<Rightarrow> Trapped c)"
| "exec1 (Suc n) E (Call f) c =
     (case callee E f (stack c) (store c) of
        Returns s g \<Rightarrow> Normal (c\<lparr>stack := s, store := g\<rparr>)
      | Traps \<Rightarrow> Trapped c
      | Diverges \<Rightarrow> Timeout c)"
| "exec1 (Suc n) E (LocalGet i) c = Normal (c\<lparr>stack := locals c i # stack c\<rparr>)"
| "exec1 (Suc n) E (LocalSet i) c =
     (case stack c of
        v # s \<Rightarrow> Normal (c\<lparr>locals := (locals c)(i := v), stack := s\<rparr>)
      | [] \<Rightarrow> Trapped c)"
| "exec1 (Suc n) E (I32Const v) c = Normal (c\<lparr>stack := I32 (word_of_int v) # stack c\<rparr>)"
| "exec1 (Suc n) E (F64Const v) c = Normal (c\<lparr>stack := F64 v # stack c\<rparr>)"
| "exec n E [] c = Normal c"
| "exec n E (i # is) c = (case exec1 n E i c of Normal c' \<Rightarrow> exec n E is c' | out \<Rightarrow> out)"

text \<open>\<open>framed k c c'\<close>: from \<open>c\<close> to \<open>c'\<close> no probe was passed and the locals from \<open>k\<close> on
  are unchanged.\<close>

definition framed :: "nat \<Rightarrow> 'g config \<Rightarrow> 'g config \<Rightarrow> bool" where
  "framed k c c' = (probes c' = probes c \<and> (\<forall>j\<ge>k. locals c' j = locals c j))"

text \<open>The body of a guarded loop with a probe between the code \<open>C\<close> that decides
  whether the loop goes on and the rest \<open>B\<close>.\<close>

definition cappedBody :: "nat \<Rightarrow> instr list \<Rightarrow> instr list \<Rightarrow> instr list" where
  "cappedBody k C B = guardInstrs k @ C @ Probe # B"

section \<open>An instance of the parameters\<close>

text \<open>For concrete evaluation: the imports and the helper catalogue of section 4.C of the
  spec with \<open>main\<close> last, a one-instruction body in the place of each helper body, and a
  \<open>getLocalDecls\<close> that declares one group of i32 locals.\<close>

definition mkFunc :: "string \<Rightarrow> bytes \<Rightarrow> bytes \<Rightarrow> FuncDef" where
  "mkFunc nm ps rs = \<lparr>fd_name = nm, fd_type = \<lparr>params = ps, results = rs\<rparr>\<rparr>"

definition exampleRuntime :: runtime where
  "exampleRuntime =
     \<lparr>importFunctions = [mkFunc ''print'' [0x7F] [], mkFunc ''println'' [0x7F] []],
      definedFunctions =
        [mkFunc ''box_nil'' [] [0x7F], mkFunc ''box_bool'' [0x7F] [0x7F],
         mkFunc ''box_number'' [0x7C] [0x7F], mkFunc ''box_string'' [0x7F, 0x7F] [0x7F],
         mkFunc ''unbox_number'' [0x7F] [0x7C], mkFunc ''is_string'' [0x7F] [0x7F],
         mkFunc ''is_bool'' [0x7F] [0x7F], mkFunc ''is_number'' [0x7F] [0x7F],
         mkFunc ''is_nil'' [0x7F] [0x7F], mkFunc ''is_truthy'' [0x7F] [0x7F],
         mkFunc ''to_number'' [0x7F] [0x7F], mkFunc ''concat'' [0x7F, 0x7F] [0x7F],
         mkFunc ''mod'' [0x7C, 0x7C] [0x7C], mkFunc ''math_pow'' [0x7C, 0x7C] [0x7C],
         mkFunc ''main'' [] []],
      helperBodies =
        map (\<lambda>nm. (nm, [0x00, 0x00, 0x0B]))
          [''box_nil'', ''box_bool'', ''box_number'', ''box_string'', ''unbox_number'',
           ''is_string'', ''is_bool'', ''is_number'', ''is_nil'', ''is_truthy'', ''to_number'',
           ''concat'', ''mod'', ''math_pow''],
      getLocalDecls = (\<lambda>st. if localVarsIndex st = 0 then [0x00]
                       else [0x01] @ unsignedLEB (localVarsIndex st) @ [0x7F])\<rparr>"

definition emptyState :: cstate where
  "emptyState = \<lparr>scopes = [], localVarsIndex = 0, userDefinedFunctions = [],
     functionBodies = [], strings = []\<rparr>"

definition program :: "Statement list \<Rightarrow> AST option" where
  "program stmts = Some \<lparr>ast_type = ''Program'', ast_body = stmts\<rparr>"

definition ident :: "string \<Rightarrow> Identifier" where
  "ident nm = Identifier nm (Loc 1 1)"

definition helloProgram :: "AST option" where
  "helloProgram = program [PrintlnStatement (StringLiteral ''hello'')]"


definition exampleState :: cstate where
  "exampleState = \<lparr>scopes = [[]], localVarsIndex = 0, userDefinedFunctions = [],
     functionBodies = helperBodies exampleRuntime, strings = []\<rparr>"

definition plusExample :: Expression where
  "plusExample = BinaryExpression ''+'' (NumberLiteral f64_one) (StringLiteral ''a'')"

definition andExample :: Expression where
  "andExample = BinaryExpression ''and'' (BooleanLiteral True) (NumberLiteral f64_one)"

definition forExample :: Statement where
  "forExample = ForStatement True (ident ''i'') (NumberLiteral f64_one) (NumberLiteral 0) None
     [PrintStatement (IdentifierExpression (ident ''i''))]"

definition ifExample :: Statement where
  "ifExample = IfStatement (BooleanLiteral True) [PrintStatement (NumberLiteral 0)]
     [(BooleanLiteral False, [PrintStatement (NumberLiteral f64_one)])]
     (Some [PrintStatement (StringLiteral ''no'')])"

text \<open>The declaration \<^verbatim>\<open>func main() print 1 end\<close>.\<close>

definition mainDecl :: Statement where
  "mainDecl = FunctionDeclStatement (ident ''main'') [] [PrintStatement (NumberLiteral f64_one)]"

definition funcExample :: Statement where
  "funcExample = FunctionDeclStatement (ident ''f'') [ident ''x'']
     [PrintStatement (IdentifierExpression (ident ''x''))]"

text \<open>Modelled from the spec: the store of a running module is its linear memory and the
  heap pointer global (section 3).  \<open>box_bool\<close> writes the tag 1 and the payload 0 or 1
  at the heap pointer, moves the heap pointer past them and returns the old value;
  \<open>is_truthy\<close> is false only for the tag 0 and for the tag 1 with the payload 0
  (section 4.C).  In \<open>exampleEnv\<close> these two are the callees at the indices of
  \<open>box_bool\<close> and \<open>is_truthy\<close>; a call of any other function and every f64
  instruction traps.\<close>

record heap =
  memory :: "32 word \<Rightarrow> byte"
  heap_ptr :: "32 word"

definition box_bool :: "32 word \<Rightarrow> heap \<Rightarrow> 32 word \<times> heap" where
  "box_bool v g =
     (heap_ptr g,
      g\<lparr>memory := (memory g)(heap_ptr g := 1, heap_ptr g + 1 := (if v = 0 then 0 else 1)),
        heap_ptr := heap_ptr g + 2\<rparr>)"

definition is_truthy :: "32 word \<Rightarrow> heap \<Rightarrow> bool" where
  "is_truthy p g = (\<not> (memory g p = 0 \<or> (memory g p = 1 \<and> memory g (p + 1) = 0)))"

definition exampleEnv :: "heap env" where
  "exampleEnv =
     \<lparr>callee = (\<lambda>f s g.
        if f = func exampleRuntime exampleState ''box_bool'' then
          (case s of I32 v # s' \<Rightarrow> (case box_bool v g of (p, g') \<Rightarrow> Returns (I32 p # s') g')
           | _ \<Rightarrow> Traps)
        else if f = func exampleRuntime exampleState ''is_truthy'' then
          (case s of I32 p # s' \<Rightarrow> Returns (bool32 (is_truthy p g) # s') g | _ \<Rightarrow> Traps)
        else Traps),
      numeric = (\<lambda>b s. None)\<rparr>"

text \<open>The state in which \<open>main\<close> starts when the string table is empty: the locals
  are 0, the memory is 0 and the heap pointer is 1.\<close>

definition initialConfig :: "heap config" where
  "initialConfig =
     \<lparr>locals = (\<lambda>i. I32 0), stack = [], store = \<lparr>memory = (\<lambda>a. 0), heap_ptr = 1\<rparr>,
      probes = 0\<rparr>"

text \<open>Two nested loops over booleans:
  \<^verbatim>\<open>t := true  f := false  while t do x := t  y := t  while x do x := y  y := f end end\<close>.
  The inner loop runs twice each time it is entered, and the outer loop never ends by
  itself.  \<open>nestedTree\<close> is the code of these statements with a probe at the start of the
  body of the inner loop: \<open>t\<close>, \<open>f\<close>, \<open>x\<close>, \<open>y\<close> are the locals 0 to 3, and the counters
  of the inner and the outer loop are the locals 4 and 5.\<close>

definition var :: "string \<Rightarrow> Expression" where
  "var nm = IdentifierExpression (ident nm)"

definition nestedLoops :: "Statement list" where
  "nestedLoops =
     [AssignStatement (ident ''t'') (BooleanLiteral True),
      AssignStatement (ident ''f'') (BooleanLiteral False),
      WhileStatement (var ''t'')
        [AssignStatement (ident ''x'') (var ''t''),
         AssignStatement (ident ''y'') (var ''t''),
         WhileStatement (var ''x'')
           [AssignStatement (ident ''x'') (var ''y''),
            AssignStatement (ident ''y'') (var ''f'')]]]"

definition innerLoop :: "instr list" where
  "innerLoop =
     whileInstrs (func exampleRuntime exampleState) 4 [LocalGet 2]
       [Probe, LocalGet 3, LocalSet 2, LocalGet 1, LocalSet 3]"

definition outerBody :: "instr list" where
  "outerBody = [LocalGet 0, LocalSet 2, LocalGet 0, LocalSet 3] @ innerLoop"

definition nestedTree :: "instr list" where
  "nestedTree =
     [I32Const 1, Call (func exampleRuntime exampleState ''box_bool''), LocalSet 0,
      I32Const 0, Call (func exampleRuntime exampleState ''box_bool''), LocalSet 1]
     @ whileInstrs (func exampleRuntime exampleState) 5 [LocalGet 0] outerBody"

text \<open>The store once \<open>t\<close> and \<open>f\<close> are assigned: \<open>true\<close> is boxed at 1 and \<open>false\<close>
  at 3.  \<open>running i c\<close>: \<open>c\<close> is a state at the head of the outer loop with the counter at
  \<open>i\<close>; \<open>enteredConfig\<close> is the state in which the outer loop is entered.\<close>

definition exampleHeap :: heap where
  "exampleHeap = \<lparr>memory = (\<lambda>a. 0)(1 := 1, 2 := 1, 3 := 1, 4 := 0), heap_ptr = 5\<rparr>"

definition running :: "nat \<Rightarrow> heap config \<Rightarrow> bool" where
  "running i c = (locals c 0 = I32 1 \<and> locals c 1 = I32 3 \<and> locals c 5 = I32 (of_nat i)
     \<and> store c = exampleHeap)"

definition enteredConfig :: "heap config" where
  "enteredConfig =
     \<lparr>locals = (\<lambda>i. I32 0)(0 := I32 1, 1 := I32 3, 5 := I32 0), stack = [],
      store = exampleHeap, probes = 0\<rparr>"

text \<open>A \<open>while\<close> statement, and a state in which every local holds the cap.\<close>

definition whileExample :: Statement where
  "whileExample = WhileStatement (BooleanLiteral True) [PrintStatement (NumberLiteral 0)]"

definition cappedConfig :: "heap config" where
  "cappedConfig = initialConfig\<lparr>locals := (\<lambda>i. I32 (word_of_int MAX_ITERATIONS))\<rparr>"

section \<open>Reading a module back\<close>

text \<open>Decoders for the two LEB128 encodings and for the sequence of sections that
  follows the header of a module.\<close>

fun read_uleb :: "bytes \<Rightarrow> (nat \<times> bytes) option" where
  "read_uleb [] = None"
| "read_uleb (b # bs) =
     (if b < 128 then Some (unat b, bs)
      else (case read_uleb bs of
              None \<Rightarrow> None
            | Some (v, rest) \<Rightarrow> Some (unat b - 128 + 128 * v, rest)))"

fun read_sleb :: "bytes \<Rightarrow> (int \<times> bytes) option" where
  "read_sleb [] = None"
| "read_sleb (b # bs) =
     (if b < 128 then Some (if b < 64 then uint b else uint b - 128, bs)
      else (case read_sleb bs of
              None \<Rightarrow> None
            | Some (v, rest) \<Rightarrow> Some (uint b - 128 + 128 * v, rest)))"

lemma read_uleb_length: "read_uleb bs = Some (v, rest) \<Longrightarrow> length rest < length bs"
  by (induction bs arbitrary: v rest) (auto split: if_splits option.splits)

function sections :: "bytes \<Rightarrow> (byte \<times> bytes) list option" where
  "sections [] = Some []"
| "sections (sid # bs) =
     (case read_uleb bs of
        None \<Rightarrow> None
      | Some (n, rest) \<Rightarrow>
          if length rest < n then None
          else (case sections (drop n rest) of
                  None \<Rightarrow> None
                | Some ss \<Rightarrow> Some ((sid, take n rest) # ss)))"
  by pat_completeness auto
termination
  by (relation "measure length") (auto dest: read_uleb_length)

text \<open>The payload of a global section holding one global whose initialiser is an
  \<open>i32.const\<close>: the count, the value type, the mutability and the initial value.\<close>

definition readGlobal :: "bytes \<Rightarrow> (nat \<times> byte \<times> byte \<times> int) option" where
  "readGlobal payload =
     (case payload of
        n # vt # mt # opc # rest \<Rightarrow>
          (if opc = 0x41 then
             (case read_sleb rest of
                Some (v, rest') \<Rightarrow> if rest' = [0x0B] then Some (unat n, vt, mt, v) else None
              | None \<Rightarrow> None)
           else None)
      | _ \<Rightarrow> None)"

text \<open>The payload of a data section holding one active segment of memory 0 whose offset is
  an \<open>i32.const\<close>: the count, the offset and the bytes.\<close>

definition readData :: "bytes \<Rightarrow> (nat \<times> int \<times> bytes) option" where
  "readData payload =
     (case payload of
        n # mem # opc # rest \<Rightarrow>
          (if mem = 0x00 \<and> opc = 0x41 then
             (case read_sleb rest of
                Some (off, e # rest') \<Rightarrow>
                  (if e = 0x0B then
                     (case read_uleb rest' of
                        Some (len, blob) \<Rightarrow> if length blob = len then Some (unat n, off, blob) else None
                      | None \<Rightarrow> None)
                   else None)
              | _ \<Rightarrow> None)
           else None)
      | _ \<Rightarrow> None)"

text \<open>A decoder for the code of a function body or of a part of one, after the binary
  format of WebAssembly 1.0, for the instructions of \<open>instr\<close>.  \<open>f64_of_bytes\<close> reads
  the bytes of a float, least significant first.\<close>

definition f64_of_bytes :: "bytes \<Rightarrow> f64bits" where
  "f64_of_bytes bs = foldr (\<lambda>b w. ucast b OR push_bit 8 w) bs 0"


definition read_f64 :: "bytes \<Rightarrow> (f64bits \<times> bytes) option" where
  "read_f64 bs = (if length bs < 8 then None else Some (f64_of_bytes (take 8 bs), drop 8 bs))"

text \<open>\<open>parse\<close> reads instructions up to the \<open>end\<close> (0x0B) or \<open>else\<close> (0x05) that closes the
  sequence, or up to the end of the input, and returns them with what closed the
  sequence and the bytes after it.  An opcode that is none of those of \<open>instr\<close> is
  refused.  The first argument bounds the number of instructions and the nesting.\<close>

definition prepend :: "instr \<Rightarrow> (instr list \<times> byte option \<times> bytes) option
    \<Rightarrow> (instr list \<times> byte option \<times> bytes) option" where
  "prepend i r = map_option (\<lambda>(is, t, rest). (i # is, t, rest)) r"

fun parse :: "nat \<Rightarrow> bytes \<Rightarrow> (instr list \<times> byte option \<times> bytes) option" where
  "parse 0 bs = None"
| "parse (Suc n) [] = Some ([], None, [])"
| "parse (Suc n) (b # bs) =
     (if b = 0x0B \<or> b = 0x05 then Some ([], Some b, bs)
      else if b = 0x02 \<or> b = 0x03 then
        (case bs of
           [] \<Rightarrow> None
         | bt # bs1 \<Rightarrow>
             (case parse n bs1 of
                Some (body, Some t, rest) \<Rightarrow>
                  if t = 0x0B
                  then prepend (if b = 0x02 then Block bt body else Loop bt body) (parse n rest)
                  else None
              | _ \<Rightarrow> None))
      else if b = 0x04 then
        (case bs of
           [] \<Rightarrow> None
         | bt # bs1 \<Rightarrow>
             (case parse n bs1 of
                Some (thn, Some t, rest) \<Rightarrow>
                  if t = 0x0B then prepend (If bt thn None) (parse n rest)
                  else
                    (case parse n rest of
                       Some (els, Some t', rest') \<Rightarrow>
                         if t' = 0x0B then prepend (If bt thn (Some els)) (parse n rest')
                         else None
                     | _ \<Rightarrow> None)
              | _ \<Rightarrow> None))
      else if b = 0x0C then
        (case read_uleb bs of Some (d, rest) \<Rightarrow> prepend (Br d) (parse n rest) | None \<Rightarrow> None)
      else if b = 0x0D then
        (case read_uleb bs of Some (d, rest) \<Rightarrow> prepend (BrIf d) (parse n rest) | None \<Rightarrow> None)
      else if b = 0x10 then
        (case read_uleb bs of Some (f, rest) \<Rightarrow> prepend (Call f) (parse n rest) | None \<Rightarrow> None)
      else if b = 0x20 then
        (case read_uleb bs of Some (i, rest) \<Rightarrow> prepend (LocalGet i) (parse n rest) | None \<Rightarrow> None)
      else if b = 0x21 then
        (case read_uleb bs of Some (i, rest) \<Rightarrow> prepend (LocalSet i) (parse n rest) | None \<Rightarrow> None)
      else if b = 0x41 then
        (case read_sleb bs of Some (v, rest) \<Rightarrow> prepend (I32Const v) (parse n rest) | None \<Rightarrow> None)
      else if b = 0x44 then
        (case read_f64 bs of Some (v, rest) \<Rightarrow> prepend (F64Const v) (parse n rest) | None \<Rightarrow> None)
      else if isPlain b then prepend (Plain b) (parse n bs)
      else None)"

definition decode :: "bytes \<Rightarrow> instr list option" where
  "decode bs = (case parse (Suc (length bs)) bs of Some (is, None, rest) \<Rightarrow> Some is | _ \<Rightarrow> None)"

subsection \<open>The sections of a module\<close>

text \<open>A vector is its length followed by that many entries; a name and a function body
  are a length followed by that many bytes.  An entry of the type section is \<open>0x60\<close>, the
  parameter types and the result types; of the import section, for a function (kind 0),
  two names and a type index; of the function section a type index; of the memory section
  limits with or without a maximum; of the export section a name, a kind and an index; of
  the code section a body.  \<open>readVector\<close> accepts a payload only when its entries use all
  of it.\<close>

definition read_name :: "bytes \<Rightarrow> (bytes \<times> bytes) option" where
  "read_name bs =
     (case read_uleb bs of
        None \<Rightarrow> None
      | Some (n, rest) \<Rightarrow> if length rest < n then None else Some (take n rest, drop n rest))"

fun read_functypes :: "nat \<Rightarrow> bytes \<Rightarrow> (FuncType list \<times> bytes) option" where
  "read_functypes 0 bs = Some ([], bs)"
| "read_functypes (Suc n) [] = None"
| "read_functypes (Suc n) (b # bs) =
     (if b \<noteq> 0x60 then None
      else case read_name bs of
        None \<Rightarrow> None
      | Some (ps, r1) \<Rightarrow>
          (case read_name r1 of
             None \<Rightarrow> None
           | Some (rs, r2) \<Rightarrow>
               map_option (\<lambda>(ts, r). (\<lparr>params = ps, results = rs\<rparr> # ts, r))
                 (read_functypes n r2)))"

fun read_imports :: "nat \<Rightarrow> bytes \<Rightarrow> ((bytes \<times> bytes \<times> nat) list \<times> bytes) option" where
  "read_imports 0 bs = Some ([], bs)"
| "read_imports (Suc n) bs =
     (case read_name bs of
        None \<Rightarrow> None
      | Some (modName, r1) \<Rightarrow>
          (case read_name r1 of
             None \<Rightarrow> None
           | Some (field, r2) \<Rightarrow>
               (case r2 of
                  [] \<Rightarrow> None
                | kind # r3 \<Rightarrow>
                    if kind \<noteq> 0x00 then None
                    else (case read_uleb r3 of
                            None \<Rightarrow> None
                          | Some (t, r4) \<Rightarrow>
                              map_option (\<lambda>(imps, r). ((modName, field, t) # imps, r))
                                (read_imports n r4)))))"

fun read_indices :: "nat \<Rightarrow> bytes \<Rightarrow> (nat list \<times> bytes) option" where
  "read_indices 0 bs = Some ([], bs)"
| "read_indices (Suc n) bs =
     (case read_uleb bs of
        None \<Rightarrow> None
      | Some (i, rest) \<Rightarrow> map_option (\<lambda>(is, r). (i # is, r)) (read_indices n rest))"

fun read_limits :: "nat \<Rightarrow> bytes \<Rightarrow> ((nat \<times> nat option) list \<times> bytes) option" where
  "read_limits 0 bs = Some ([], bs)"
| "read_limits (Suc n) [] = None"
| "read_limits (Suc n) (flag # bs) =
     (case read_uleb bs of
        None \<Rightarrow> None
      | Some (lo, r1) \<Rightarrow>
          if flag = 0x00 then map_option (\<lambda>(ls, r). ((lo, None) # ls, r)) (read_limits n r1)
          else if flag = 0x01 then
            (case read_uleb r1 of
               None \<Rightarrow> None
             | Some (hi, r2) \<Rightarrow> map_option (\<lambda>(ls, r). ((lo, Some hi) # ls, r)) (read_limits n r2))
          else None)"

fun read_exports :: "nat \<Rightarrow> bytes \<Rightarrow> ((bytes \<times> byte \<times> nat) list \<times> bytes) option" where
  "read_exports 0 bs = Some ([], bs)"
| "read_exports (Suc n) bs =
     (case read_name bs of
        None \<Rightarrow> None
      | Some (nm, r1) \<Rightarrow>
          (case r1 of
             [] \<Rightarrow> None
           | kind # r2 \<Rightarrow>
               (case read_uleb r2 of
                  None \<Rightarrow> None
                | Some (i, r3) \<Rightarrow>
                    map_option (\<lambda>(exps, r). ((nm, kind, i) # exps, r)) (read_exports n r3))))"

fun read_bodies :: "nat \<Rightarrow> bytes \<Rightarrow> (bytes list \<times> bytes) option" where
  "read_bodies 0 bs = Some ([], bs)"
| "read_bodies (Suc n) bs =
     (case read_name bs of
        None \<Rightarrow> None
      | Some (body, rest) \<Rightarrow> map_option (\<lambda>(bodies, r). (body # bodies, r)) (read_bodies n rest))"

definition readVector :: "(nat \<Rightarrow> bytes \<Rightarrow> ('a list \<times> bytes) option) \<Rightarrow> bytes \<Rightarrow> ('a list) option" where
  "readVector rd payload =
     (case read_uleb payload of
        None \<Rightarrow> None
      | Some (n, rest) \<Rightarrow> (case rd n rest of Some (xs, []) \<Rightarrow> Some xs | _ \<Rightarrow> None))"

text \<open>The module that a byte sequence encodes: the header, then the eight sections that
  \<open>_compile\<close> can emit, in ascending order, each read with its reader.\<close>

record module =
  m_types :: "FuncType list"
  m_imports :: "(bytes \<times> bytes \<times> nat) list"
  m_funcs :: "nat list"
  m_mems :: "(nat \<times> nat option) list"
  m_global :: "nat \<times> byte \<times> byte \<times> int"
  m_exports :: "(bytes \<times> byte \<times> nat) list"
  m_code :: "bytes list"
  m_data :: "nat \<times> int \<times> bytes"

definition readModule :: "bytes \<Rightarrow> module option" where
  "readModule bs =
     (if take 8 bs \<noteq> header then None
      else case sections (drop 8 bs) of
        None \<Rightarrow> None
      | Some secs \<Rightarrow>
          if map fst secs \<noteq> [1, 2, 3, 5, 6, 7, 10, 11] then None
          else case map (\<lambda>(i, payload). payload) secs of
            [ty, im, fn, me, gl, ex, co, da] \<Rightarrow>
              (case (readVector read_functypes ty, readVector read_imports im,
                     readVector read_indices fn, readVector read_limits me) of
                 (Some types, Some imports, Some funcs, Some mems) \<Rightarrow>
                   (case (readGlobal gl, readVector read_exports ex,
                          readVector read_bodies co, readData da) of
                      (Some global, Some exports, Some code, Some dat) \<Rightarrow>
                        Some \<lparr>m_types = types, m_imports = imports, m_funcs = funcs,
                              m_mems = mems, m_global = global, m_exports = exports,
                              m_code = code, m_data = dat\<rparr>
                    | _ \<Rightarrow> None)
               | _ \<Rightarrow> None)
          | _ \<Rightarrow> None)"

text \<open>The part of the validity of a module that relates its sections to each other:
  imports and functions have a type of the type section, the code section has one body
  for each entry of the function section, there is one memory, one global of type i32
  with an \<open>i32.const\<close> initialiser, and one data segment, and the exports have different
  names and name a function (kind 0) of the index space of imports and functions or a
  memory (kind 2) that exists.  The typing of the function bodies is not part of it.\<close>

definition exportOk :: "module \<Rightarrow> bytes \<times> byte \<times> nat \<Rightarrow> bool" where
  "exportOk m e =
     (case e of (nm, kind, i) \<Rightarrow>
        if kind = 0x00 then i < length (m_imports m) + length (m_funcs m)
        else kind = 0x02 \<and> i < length (m_mems m))"

definition wellFormed :: "module \<Rightarrow> bool" where
  "wellFormed m =
     (list_all (\<lambda>(modName, field, t). t < length (m_types m)) (m_imports m)
      \<and> list_all (\<lambda>t. t < length (m_types m)) (m_funcs m)
      \<and> length (m_code m) = length (m_funcs m)
      \<and> length (m_mems m) = 1
      \<and> (case m_global m of (n, vt, mt, v) \<Rightarrow> n = 1 \<and> vt = 0x7F \<and> mt \<le> 1)
      \<and> list_all (exportOk m) (m_exports m)
      \<and> distinct (map fst (m_exports m))
      \<and> (case m_data m of (n, off, blob) \<Rightarrow> n = 1))"

definition wellFormedModule :: "bytes \<Rightarrow> bool" where
  "wellFormedModule bs = (case readModule bs of None \<Rightarrow> False | Some m \<Rightarrow> wellFormed m)"


section \<open>The functions a program declares\<close>

text \<open>The names of the \<open>FunctionDeclStatement\<close> nodes of a statement, at any depth, in
  the order in which \<open>compileStatement\<close> reaches them.\<close>

fun declared :: "Statement \<Rightarrow> string list"
  and declareds :: "Statement list \<Rightarrow> string list"
  and declaredElifs :: "(Expression \<times> Statement list) list \<Rightarrow> string list" where
  "declared (IfStatement c thenStmts elifBranches elseStmts) =
     declareds thenStmts @ declaredElifs elifBranches
       @ (case elseStmts of None \<Rightarrow> [] | Some stmts \<Rightarrow> declareds stmts)"
| "declared (WhileStatement c stmts) = declareds stmts"
| "declared (ForStatement isLocal identifier expression condition increment stmts) = declareds stmts"
| "declared (FunctionDeclStatement name ps stmts) = id_name name # declareds stmts"
| "declared s = []"
| "declareds [] = []"
| "declareds (s # ss) = declared s @ declareds ss"
| "declaredElifs [] = []"
| "declaredElifs ((c, stmts) # rest) = declareds stmts @ declaredElifs rest"

text \<open>\<open>sameFuncs\<close>: a step leaves \<open>userDefinedFunctions\<close> and \<open>functionBodies\<close> as they
  were.  \<open>grows D\<close>: a step adds the names \<open>D\<close> to both, and keeps the names of
  \<open>userDefinedFunctions\<close> free of repetitions.\<close>

definition sameFuncs :: "cstate \<Rightarrow> cstate \<Rightarrow> bool" where
  "sameFuncs st st' = (userDefinedFunctions st' = userDefinedFunctions st
     \<and> functionBodies st' = functionBodies st)"

definition userNames :: "cstate \<Rightarrow> string list" where
  "userNames st = map fd_name (userDefinedFunctions st)"

definition bodyKeys :: "cstate \<Rightarrow> string set" where
  "bodyKeys st = set (map fst (functionBodies st))"

definition grows :: "string set \<Rightarrow> cstate \<Rightarrow> cstate \<Rightarrow> bool" where
  "grows D st st' =
     (set (userNames st') = set (userNames st) \<union> D \<and> bodyKeys st' = bodyKeys st \<union> D
      \<and> (distinct (userNames st) \<longrightarrow> distinct (userNames st')))"


definition noClash :: "runtime \<Rightarrow> AST option \<Rightarrow> bool" where
  "noClash R ast =
     (case ast of
        None \<Rightarrow> True
      | Some a \<Rightarrow> list_all (\<lambda>nm. nm \<notin> set (map fd_name (definedFunctions R))) (declareds (ast_body a)))"

definition concatDecl :: Statement where
  "concatDecl = FunctionDeclStatement (ident ''concat'') [] []"

text \<open>The state of \<open>_compile\<close> after its four resets.\<close>

definition startState :: "runtime \<Rightarrow> cstate \<Rightarrow> StringTable \<Rightarrow> cstate" where
  "startState R prev tbl = resetFunctionBodies R (clearUserDefinedFunctions (setLocalVarsIndex 0
                  (clearScopes (prev\<lparr>strings := tbl\<rparr>))))"


section \<open>Properties of the encoders\<close>

declare sections.simps(2) [simp del]

lemma byte_of_nat_less: "n < 256 \<Longrightarrow> unat (of_nat n :: byte) = n"
  by (simp add: unat_of_nat)

lemma read_uleb_unsignedLEB: "read_uleb (unsignedLEB n @ rest) = Some (n, rest)"
proof (induction n rule: unsignedLEB.induct)
  case (1 n)
  show ?case
  proof (cases "n < 128")
    case True
    then have u: "unat (of_nat n :: byte) = n" by (simp add: unat_of_nat)
    then have "(of_nat n :: byte) < 128" using True by (simp add: word_less_nat_alt)
    with True u show ?thesis by (subst unsignedLEB.simps) simp
  next
    case False
    have u: "unat (of_nat (n mod 128 + 128) :: byte) = n mod 128 + 128"
      by (subst unat_of_nat) simp
    then have "\<not> (of_nat (n mod 128 + 128) :: byte) < 128" by (simp add: word_less_nat_alt)
    with False u "1.IH" show ?thesis by (subst unsignedLEB.simps) simp
  qed
qed

lemma mod_128_small: "- 64 \<le> (n::int) \<Longrightarrow> n < 64 \<Longrightarrow> n mod 128 = (if n < 0 then n + 128 else n)"
proof (cases "n < 0")
  case True
  assume "- 64 \<le> n"
  with True have "(n + 128) mod 128 = n + 128" by (intro mod_pos_pos_trivial) auto
  moreover have "(n + 128) mod 128 = n mod 128" by simp
  ultimately show ?thesis using True by simp
next
  case False
  assume "n < 64"
  with False show ?thesis by simp
qed

lemma read_sleb_signedLEB: "read_sleb (signedLEB n @ rest) = Some (n, rest)"
proof (induction n rule: signedLEB.induct)
  case (1 n)
  show ?case
  proof (cases "- 64 \<le> n \<and> n < 64")
    case True
    have eq: "signedLEB n = [of_int (n mod 128)]"
      by (subst signedLEB.simps) (simp only: True if_True simp_thms)
    have u: "uint (of_int (n mod 128) :: byte) = n mod 128"
      by (subst uint_word_of_int) simp
    have lt: "(of_int (n mod 128) :: byte) < 128"
      using u by (simp add: word_less_def)
    have "(if (of_int (n mod 128) :: byte) < 64 then uint (of_int (n mod 128) :: byte)
           else uint (of_int (n mod 128) :: byte) - 128) = n"
      using True u mod_128_small [of n] by (auto simp: word_less_def)
    with lt show ?thesis unfolding eq by simp
  next
    case False
    have eq: "signedLEB n = of_int (n mod 128 + 128) # signedLEB (n div 128)"
      by (subst signedLEB.simps) (simp only: False if_False simp_thms)
    have u: "uint (of_int (n mod 128 + 128) :: byte) = n mod 128 + 128"
      by (subst uint_word_of_int) simp
    then have nlt: "\<not> (of_int (n mod 128 + 128) :: byte) < 128" by (simp add: word_less_def)
    have "read_sleb (signedLEB n @ rest)
        = Some (uint (of_int (n mod 128 + 128) :: byte) - 128 + 128 * (n div 128), rest)"
      unfolding eq using nlt "1.IH" [OF False] by (simp del: of_int_add)
    also have "uint (of_int (n mod 128 + 128) :: byte) - 128 + 128 * (n div 128) = n"
      unfolding u by simp
    finally show ?thesis .
  qed
qed

lemma sections_emitSection:
  "sections (emitSection sid payload @ rest) = map_option ((#) (sid, payload)) (sections rest)"
  by (simp add: emitSection_def sections.simps(2) read_uleb_unsignedLEB split: option.splits)


lemma compile_inner_layout:
  assumes "compile_inner R prev a tbl = Inr (bs, st)"
  shows "\<exists>ty im fn ex co.
    bs = header @ emitSection 1 ty @ emitSection 2 im @ emitSection 3 fn
      @ emitSection 5 [0x01, 0x00, 0x10]
      @ emitSection 6 ([0x01, valType_i32, 0x01] @ i32_const (int (length (getBytes (strings st))) + 1) @ control_end)
      @ emitSection 7 ex @ emitSection 10 co
      @ emitSection 11 ([0x01, 0x00] @ i32_const 0 @ control_end
          @ unsignedLEB (length (getBytes (strings st))) @ getBytes (strings st))"
  using assms unfolding compile_inner_def Let_def
  apply (clarsimp simp: bind_eq_Inr)
  apply (intro exI)
  apply (rule refl)
  done


section \<open>The emitted code as instruction trees\<close>

lemma encodes_append [simp]: "encodes (xs @ ys) = encodes xs @ encodes ys"
  by (induction xs) simp_all

lemma isPlain_emitted [simp]:
  "isPlain 0x00" "isPlain 0x0F" "isPlain 0x1A" "isPlain 0x45" "isPlain 0x4F" "isPlain 0x6A"
  "isPlain 0x72" "isPlain 0x61" "isPlain 0x62" "isPlain 0x63" "isPlain 0x64" "isPlain 0x65"
  "isPlain 0x66" "isPlain 0x9A" "isPlain 0xA0" "isPlain 0xA1" "isPlain 0xA2" "isPlain 0xA3"
  by (simp_all add: isPlain_def)

lemma nativeBinOps_isPlain: "nativeBinOps operator = Some opc \<Longrightarrow> isPlain opc"
  by (auto simp: nativeBinOps_def split: if_splits)

lemma below_mono: "below n i \<Longrightarrow> n \<le> m \<Longrightarrow> below m i"
  by (induction n i rule: below.induct) (auto simp: list_all_iff split: option.splits)

lemma below_all_mono: "list_all (below n) is \<Longrightarrow> n \<le> m \<Longrightarrow> list_all (below m) is"
  by (auto simp: list_all_iff intro: below_mono)

lemmas opcode_defs = i32_const_def i32_add_def i32_eqz_def i32_ge_u_def i32_or_def
  f64_add_def f64_neg_def f64_eq_def f64_lt_def f64_gt_def local_get_def local_set_def
  fn_call_def fn_return_def control_end_def block_start_def block_end_def loop_start_def
  loop_br_def loop_br_if_def loop_end_def if_start_def if_else_def if_end_def
  misc_unreachable_def misc_drop_def

lemma codedI: "code = encodes is \<Longrightarrow> list_all (below n) is \<Longrightarrow> coded n code"
  by (auto simp: coded_def)

lemma codedE: "coded n code \<Longrightarrow> (\<And>is. code = encodes is \<Longrightarrow> list_all (below n) is \<Longrightarrow> thesis) \<Longrightarrow> thesis"
  by (auto simp: coded_def)

lemma coded_mono: "coded n code \<Longrightarrow> n \<le> m \<Longrightarrow> coded m code"
  by (auto simp: coded_def intro: below_all_mono)

lemma coded_Nil [simp]: "coded n []"
  by (rule codedI [of _ "[]"]) simp_all

lemma coded_append: "coded n a \<Longrightarrow> coded n b \<Longrightarrow> coded n (a @ b)"
  by (auto simp: coded_def) (metis encodes_append list_all_append)

lemma below_plusInstrs:
  "list_all (below n) L \<Longrightarrow> list_all (below n) Rr \<Longrightarrow> list_all (below n) (plusInstrs f L Rr)"
  by (simp add: plusInstrs_def)

lemma below_andInstrs:
  "list_all (below n) L \<Longrightarrow> list_all (below n) Rr \<Longrightarrow> k < n \<Longrightarrow> list_all (below n) (andInstrs f k L Rr)"
  by (simp add: andInstrs_def)

lemma below_orInstrs:
  "list_all (below n) L \<Longrightarrow> list_all (below n) Rr \<Longrightarrow> k < n \<Longrightarrow> list_all (below n) (orInstrs f k L Rr)"
  by (simp add: orInstrs_def)

lemma binaryCode_plus:
  assumes "binaryCode R ''+'' (encodes L) (encodes Rr) st = Inr (code, st')"
  shows "st' = st \<and> code = encodes (plusInstrs (func R st) L Rr)"
  using assms by (auto simp add: binaryCode_def nativeBinOps_def opcode_defs plusInstrs_def)

lemma binaryCode_and:
  assumes "binaryCode R ''and'' (encodes L) (encodes Rr) st = Inr (code, st')"
  shows "st' = st\<lparr>localVarsIndex := localVarsIndex st + 1\<rparr> \<and>
    code = encodes (andInstrs (func R st') (localVarsIndex st) L Rr)"
  using assms
  by (auto simp add: binaryCode_def nativeBinOps_def opcode_defs consumeScratchIndex_def andInstrs_def)

lemma binaryCode_or:
  assumes "binaryCode R ''or'' (encodes L) (encodes Rr) st = Inr (code, st')"
  shows "st' = st\<lparr>localVarsIndex := localVarsIndex st + 1\<rparr> \<and>
    code = encodes (orInstrs (func R st') (localVarsIndex st) L Rr)"
  using assms
  by (auto simp add: binaryCode_def nativeBinOps_def opcode_defs consumeScratchIndex_def orInstrs_def)

lemma below_nativeInstrs:
  "list_all (below n) L \<Longrightarrow> list_all (below n) Rr \<Longrightarrow> list_all (below n) ops
     \<Longrightarrow> list_all (below n) (nativeInstrs f ops L Rr)"
  by (simp add: nativeInstrs_def)

lemma binaryCode_native:
  assumes "binaryCode R operator (encodes L) (encodes Rr) st = Inr (code, st')"
    and "operator \<noteq> ''+''" and "nativeBinOps operator = Some opc"
  shows "st' = st \<and> code = encodes (nativeInstrs (func R st)
      [Plain opc, Call (func R st (if operator \<in> comparisonOps then ''box_bool'' else ''box_number''))]
      L Rr)"
  using assms by (auto simp add: binaryCode_def opcode_defs nativeInstrs_def)

lemma binaryCode_other:
  assumes "binaryCode R operator (encodes L) (encodes Rr) st = Inr (code, st')"
    and "nativeBinOps operator = None" and "operator \<noteq> ''and''" and "operator \<noteq> ''or''"
  shows "st' = st \<and> code = encodes (nativeInstrs (func R st)
      [Call (func R st (if operator = ''%'' then ''mod'' else ''math_pow'')),
       Call (func R st ''box_number'')] L Rr)"
  using assms by (auto simp add: binaryCode_def opcode_defs throw_def nativeInstrs_def split: if_splits)

lemma binaryCode_coded:
  assumes bc: "binaryCode R operator left right st = Inr (code, st')"
    and l: "coded (localVarsIndex st) left" and r: "coded (localVarsIndex st) right"
  shows "coded (localVarsIndex st') code \<and> scopes st' = scopes st
    \<and> localVarsIndex st \<le> localVarsIndex st'"
proof -
  from l obtain L where L: "left = encodes L" "list_all (below (localVarsIndex st)) L"
    by (rule codedE)
  from r obtain Rr where Rr: "right = encodes Rr" "list_all (below (localVarsIndex st)) Rr"
    by (rule codedE)
  note bc' = bc [unfolded L(1) Rr(1)]
  have L': "list_all (below (Suc (localVarsIndex st))) L"
    and Rr': "list_all (below (Suc (localVarsIndex st))) Rr"
    using L(2) Rr(2) by (auto intro: below_all_mono)
  consider (plus) "operator = ''+''"
    | (native) opc where "operator \<noteq> ''+''" "nativeBinOps operator = Some opc"
    | (conj) "operator = ''and''" | (disj) "operator = ''or''"
    | (other) "nativeBinOps operator = None" "operator \<noteq> ''and''" "operator \<noteq> ''or''"
    by (cases "nativeBinOps operator") auto
  then show ?thesis
  proof cases
    case plus
    from binaryCode_plus [OF bc' [unfolded plus]] have "st' = st"
      "code = encodes (plusInstrs (func R st) L Rr)" by blast+
    with below_plusInstrs [OF L(2) Rr(2)] show ?thesis
      by (simp add: codedI)
  next
    case native
    from binaryCode_native [OF bc' native] nativeBinOps_isPlain [OF native(2)]
    obtain ops where "st' = st"
      "code = encodes (nativeInstrs (func R st) ops L Rr)" "list_all (below (localVarsIndex st)) ops"
      by auto
    with below_nativeInstrs [OF L(2) Rr(2)] show ?thesis
      by (simp add: codedI)
  next
    case conj
    from binaryCode_and [OF bc' [unfolded conj]]
    have "st' = st\<lparr>localVarsIndex := localVarsIndex st + 1\<rparr>"
      "code = encodes (andInstrs (func R st') (localVarsIndex st) L Rr)" by blast+
    with below_andInstrs [OF L' Rr', of "localVarsIndex st"] show ?thesis
      by (simp add: codedI)
  next
    case disj
    from binaryCode_or [OF bc' [unfolded disj]]
    have "st' = st\<lparr>localVarsIndex := localVarsIndex st + 1\<rparr>"
      "code = encodes (orInstrs (func R st') (localVarsIndex st) L Rr)" by blast+
    with below_orInstrs [OF L' Rr', of "localVarsIndex st"] show ?thesis
      by (simp add: codedI)
  next
    case other
    from binaryCode_other [OF bc' other] obtain ops where "st' = st"
      "code = encodes (nativeInstrs (func R st) ops L Rr)" "list_all (below (localVarsIndex st)) ops"
      by auto
    with below_nativeInstrs [OF L(2) Rr(2)] show ?thesis
      by (simp add: codedI)
  qed
qed

lemma coded_call [simp]: "coded n (fn_call i)"
  by (rule codedI [of _ "[Call i]"]) (simp_all add: fn_call_def)

lemma coded_i32_const [simp]: "coded n (i32_const v)"
  by (rule codedI [of _ "[I32Const v]"]) (simp_all add: i32_const_def)

lemma coded_f64_const [simp]: "coded n (f64_const v)"
  by (rule codedI [of _ "[F64Const v]"]) simp_all

lemma coded_plain [simp]: "isPlain b \<Longrightarrow> coded n [b]"
  by (rule codedI [of _ "[Plain b]"]) simp_all

lemma coded_plain_Cons: "isPlain b \<Longrightarrow> coded n code \<Longrightarrow> coded n (b # code)"
  using coded_append [OF coded_plain, of b n code] by simp

lemma coded_local_get: "i < n \<Longrightarrow> coded n (local_get i)"
  by (rule codedI [of _ "[LocalGet i]"]) (simp_all add: local_get_def)

lemma coded_local_set: "i < n \<Longrightarrow> coded n (local_set i)"
  by (rule codedI [of _ "[LocalSet i]"]) (simp_all add: local_set_def)

lemma lookupScopes_below:
  "lookupScopes nm ss = Some i \<Longrightarrow> \<forall>sc \<in> set ss. \<forall>p \<in> set sc. snd p < n \<Longrightarrow> i < n"
  by (induction ss) (auto split: option.splits dest!: map_of_SomeD)

lemma getVar_below: "getVar nm st = Some i \<Longrightarrow> wfScopes st \<Longrightarrow> i < localVarsIndex st"
  unfolding getVar_def wfScopes_def by (rule lookupScopes_below)

lemma wfScopes_strings [simp]: "wfScopes (st\<lparr>strings := t\<rparr>) = wfScopes st"
  by (simp add: wfScopes_def)

lemma compileExpression_coded:
  "compileExpression R e st = Inr (code, st') \<Longrightarrow> wfScopes st \<Longrightarrow>
     coded (localVarsIndex st') code \<and> scopes st' = scopes st
       \<and> localVarsIndex st \<le> localVarsIndex st'"
  and compileArgs_coded:
  "compileArgs R es st = Inr (code, st') \<Longrightarrow> wfScopes st \<Longrightarrow>
     coded (localVarsIndex st') code \<and> scopes st' = scopes st
       \<and> localVarsIndex st \<le> localVarsIndex st'"
proof (induction R e st and R es st arbitrary: code st' and code st'
    rule: compileExpression_compileArgs.induct)
  case (1 R v st)
  then show ?case
    by (auto split: prod.splits intro!: coded_append)
next
  case (2 R v st)
  then show ?case by (auto intro!: coded_append)
next
  case (3 R b st)
  then show ?case by (auto intro!: coded_append)
next
  case (4 R ident st)
  then show ?case
    by (auto simp: throw_def split: option.splits intro!: coded_local_get getVar_below)
next
  case (5 R e st)
  then show ?case by simp
next
  case (6 R operator l r st)
  from "6.prems"(1) obtain left st1 right st2 where
    l: "compileExpression R l st = Inr (left, st1)" and
    r: "compileExpression R r st1 = Inr (right, st2)" and
    b: "binaryCode R operator left right st2 = Inr (code, st')"
    by (auto simp: bind_eq_Inr)
  from "6.IH"(1) [OF l "6.prems"(2)] have 1: "coded (localVarsIndex st1) left"
    "scopes st1 = scopes st" "localVarsIndex st \<le> localVarsIndex st1" by auto
  with "6.prems"(2) have w1: "wfScopes st1" by (fastforce simp: wfScopes_def)
  from "6.IH"(2) [OF l refl r w1] have 2: "coded (localVarsIndex st2) right"
    "scopes st2 = scopes st1" "localVarsIndex st1 \<le> localVarsIndex st2" by auto
  from binaryCode_coded [OF b coded_mono [OF 1(1) 2(3)] 2(1)] 1 2 show ?case by auto
next
  case (7 R operator arg st)
  have IHarg: "coded (localVarsIndex st1) c \<and> scopes st1 = scopes st
      \<and> localVarsIndex st \<le> localVarsIndex st1"
    if a: "compileExpression R arg st = Inr (c, st1)"
      and o: "operator = ''+'' \<or> operator = ''-'' \<or> operator = ''~''" for c st1
  proof (cases "operator = ''+''")
    case True
    from "7.IH"(1) [OF True a "7.prems"(2)] show ?thesis .
  next
    case np: False
    show ?thesis
    proof (cases "operator = ''-''")
      case nm: False
      with np o have t: "operator = ''~''" by simp
      from "7.IH"(10) [OF np nm t a "7.prems"(2)] show ?thesis .
    next
      case True
      show ?thesis
      proof (cases arg)
        case (StringLiteral x)
        from "7.IH"(2) [OF np True StringLiteral a "7.prems"(2)] show ?thesis .
      next
        case (NumberLiteral x)
        with a show ?thesis by (auto intro!: coded_append)
      next
        case (BooleanLiteral x)
        from "7.IH"(3) [OF np True BooleanLiteral a "7.prems"(2)] show ?thesis .
      next
        case (IdentifierExpression x)
        from "7.IH"(4) [OF np True IdentifierExpression a "7.prems"(2)] show ?thesis .
      next
        case (GroupingExpression x)
        from "7.IH"(5) [OF np True GroupingExpression a "7.prems"(2)] show ?thesis .
      next
        case (BinaryExpression x y z)
        from "7.IH"(6) [OF np True BinaryExpression a "7.prems"(2)] show ?thesis .
      next
        case (UnaryExpression x y)
        from "7.IH"(7) [OF np True UnaryExpression a "7.prems"(2)] show ?thesis .
      next
        case (FunctionCallExpression x y z)
        from "7.IH"(8) [OF np True FunctionCallExpression a "7.prems"(2)] show ?thesis .
      next
        case OtherExpression
        from "7.IH"(9) [OF np True OtherExpression a "7.prems"(2)] show ?thesis .
      qed
    qed
  qed
  have unfold: "compileExpression R (UnaryExpression operator arg) st =
     (if operator = ''+'' then compileExpression R arg st
      else if operator = ''-'' then
        (case arg of
           NumberLiteral v \<Rightarrow> Inr (f64_const (negate v) @ fn_call (func R st ''box_number''), st)
         | _ \<Rightarrow> bind (compileExpression R arg st) (\<lambda>(code, st1).
                  Inr (code @ fn_call (func R st1 ''unbox_number'') @ f64_neg
                    @ fn_call (func R st1 ''box_number''), st1)))
      else if operator = ''~'' then
        bind (compileExpression R arg st) (\<lambda>(code, st1).
          Inr (code @ fn_call (func R st1 ''unbox_number'') @ f64_const 0 @ f64_eq
            @ fn_call (func R st1 ''box_bool''), st1))
      else throw (ThrownError (''Unsupported unary operator: '' @ operator)) st)"
    by (rule compileExpression.simps)
  show ?case
  proof (cases "operator = ''+''")
    case True
    with "7.prems"(1) [unfolded unfold] have "compileExpression R arg st = Inr (code, st')"
      by simp
    from IHarg [OF this] True show ?thesis by simp
  next
    case np: False
    show ?thesis
    proof (cases "operator = ''-''")
      case True
      show ?thesis
      proof (cases "\<exists>v. arg = NumberLiteral v")
        case True
        then obtain v where v: "arg = NumberLiteral v" ..
        from "7.prems"(1) [unfolded unfold v] np \<open>operator = ''-''\<close>
        have "code = f64_const (negate v) @ fn_call (func R st ''box_number'')" "st' = st"
          by auto
        then show ?thesis by (auto intro!: coded_append)
      next
        case False
        then have "(case arg of
           NumberLiteral v \<Rightarrow> Inr (f64_const (negate v) @ fn_call (func R st ''box_number''), st)
         | _ \<Rightarrow> bind (compileExpression R arg st) (\<lambda>(code, st1).
                  Inr (code @ fn_call (func R st1 ''unbox_number'') @ f64_neg
                    @ fn_call (func R st1 ''box_number''), st1)))
          = bind (compileExpression R arg st) (\<lambda>(code, st1).
                  Inr (code @ fn_call (func R st1 ''unbox_number'') @ f64_neg
                    @ fn_call (func R st1 ''box_number''), st1))"
          by (cases arg) simp_all
        with "7.prems"(1) [unfolded unfold] np \<open>operator = ''-''\<close>
        have "bind (compileExpression R arg st) (\<lambda>(code, st1).
                  Inr (code @ fn_call (func R st1 ''unbox_number'') @ f64_neg
                    @ fn_call (func R st1 ''box_number''), st1)) = Inr (code, st')"
          by simp
        then obtain c st1 where
          a: "compileExpression R arg st = Inr (c, st1)" and
          c: "code = c @ fn_call (func R st1 ''unbox_number'') @ f64_neg @ fn_call (func R st1 ''box_number'')"
            "st' = st1"
          by (auto simp: bind_eq_Inr)
        from IHarg [OF a] \<open>operator = ''-''\<close> c show ?thesis
          by (auto simp: f64_neg_def intro!: coded_append coded_plain_Cons)
      qed
    next
      case nm: False
      show ?thesis
      proof (cases "operator = ''~''")
        case True
        with np nm "7.prems"(1) [unfolded unfold] obtain c st1 where
          a: "compileExpression R arg st = Inr (c, st1)" and
          c: "code = c @ fn_call (func R st1 ''unbox_number'') @ f64_const 0 @ f64_eq
                @ fn_call (func R st1 ''box_bool'')" "st' = st1"
          by (auto simp: bind_eq_Inr)
        from IHarg [OF a] True c show ?thesis
          by (auto simp: f64_eq_def intro!: coded_append coded_plain_Cons)
      next
        case False
        with np nm "7.prems"(1) [unfolded unfold] show ?thesis by (simp add: throw_def)
      qed
    qed
  qed
next
  case (8 R name args loc st)
  show ?case
  proof (cases "id_name name = ''is_string''")
    case True
    with "8.prems"(1) obtain c st1 where
      n: "\<not> length args \<noteq> 1" and
      a: "compileArgs R args st = Inr (c, st1)" and
      c: "code = c @ fn_call (func R st1 ''is_string'') @ fn_call (func R st1 ''box_bool'')" "st' = st1"
      by (auto simp: bind_eq_Inr throw_def split: if_splits)
    from "8.IH"(1) [OF refl True n a "8.prems"(2)] c show ?thesis
      by (auto intro!: coded_append)
  next
    case False
    with "8.prems"(1) obtain fd c st1 where
      f: "find (\<lambda>fn. fd_name fn = id_name name) (userDefinedFunctions st) = Some fd" and
      n: "\<not> length (params (fd_type fd)) \<noteq> length args" and
      a: "compileArgs R args st = Inr (c, st1)" and
      c: "code = c @ fn_call (func R st1 (id_name name))" "st' = st1"
      by (auto simp: bind_eq_Inr throw_def Let_def split: if_splits option.splits)
    from "8.IH"(2) [OF refl False f n a "8.prems"(2)] c show ?thesis
      by (auto intro!: coded_append)
  qed
next
  case (9 R st)
  then show ?case by (simp add: throw_def)
next
  case (10 R st)
  then show ?case by simp
next
  case (11 R a as st)
  from "11.prems"(1) obtain c st1 cs where
    a: "compileExpression R a st = Inr (c, st1)" and
    r: "compileArgs R as st1 = Inr (cs, st')" and
    c: "code = c @ cs"
    by (auto simp: bind_eq_Inr)
  from "11.IH"(1) [OF a "11.prems"(2)] have 1: "coded (localVarsIndex st1) c"
    "scopes st1 = scopes st" "localVarsIndex st \<le> localVarsIndex st1" by auto
  with "11.prems"(2) have w1: "wfScopes st1" by (fastforce simp: wfScopes_def)
  from "11.IH"(2) [OF a refl r w1] have 2: "coded (localVarsIndex st') cs"
    "scopes st' = scopes st1" "localVarsIndex st1 \<le> localVarsIndex st'" by auto
  from 1 2 c show ?case by (auto intro!: coded_append coded_mono [OF 1(1)])
qed

lemma below_guardInstrs: "k < n \<Longrightarrow> list_all (below n) (guardInstrs k)"
  by (simp add: guardInstrs_def)

lemma below_whileInstrs:
  "list_all (below n) C \<Longrightarrow> list_all (below n) B \<Longrightarrow> k < n
     \<Longrightarrow> list_all (below n) (whileInstrs f k C B)"
  by (simp add: whileInstrs_def below_guardInstrs)

lemma below_forInstrs:
  "list_all (below n) INIT \<Longrightarrow> list_all (below n) STEP \<Longrightarrow> list_all (below n) COND
     \<Longrightarrow> list_all (below n) B \<Longrightarrow> k < n \<Longrightarrow> d < n \<Longrightarrow> v < n
     \<Longrightarrow> list_all (below n) (forInstrs f k d v INIT STEP COND B)"
  by (simp add: forInstrs_def below_guardInstrs)

lemma encodes_guardInstrs:
  "encodes (guardInstrs k) = local_get k @ i32_const MAX_ITERATIONS @ i32_ge_u
     @ if_start blockType_none @ misc_unreachable @ if_end
     @ local_get k @ i32_const 1 @ i32_add @ local_set k"
  by (simp add: guardInstrs_def opcode_defs)

lemma encodes_whileInstrs:
  "encodes (whileInstrs f k C B) =
     i32_const 0 @ local_set k @ block_start @ loop_start
       @ local_get k @ i32_const MAX_ITERATIONS @ i32_ge_u
       @ if_start blockType_none @ misc_unreachable @ if_end
       @ local_get k @ i32_const 1 @ i32_add @ local_set k
       @ encodes C @ fn_call (f ''is_truthy'') @ i32_eqz @ loop_br_if 1
       @ encodes B @ loop_br 0 @ loop_end @ block_end"
  by (simp add: whileInstrs_def encodes_guardInstrs) (simp add: opcode_defs)

lemma encodes_forInstrs:
  "encodes (forInstrs f k d v INIT STEP COND B) =
     i32_const 0 @ local_set k @ encodes INIT @ encodes STEP
       @ fn_call (f ''unbox_number'') @ f64_const 0 @ f64_lt @ local_set d
       @ block_start @ loop_start
       @ local_get k @ i32_const MAX_ITERATIONS @ i32_ge_u
       @ if_start blockType_none @ misc_unreachable @ if_end
       @ local_get k @ i32_const 1 @ i32_add @ local_set k
       @ local_get d
       @ if_start valType_i32
         @ local_get v @ fn_call (f ''unbox_number'') @ encodes COND
         @ fn_call (f ''unbox_number'') @ f64_lt
       @ if_else
         @ local_get v @ fn_call (f ''unbox_number'') @ encodes COND
         @ fn_call (f ''unbox_number'') @ f64_gt
       @ if_end
       @ loop_br_if 1
       @ encodes B
       @ local_get v @ fn_call (f ''unbox_number'') @ encodes STEP
       @ fn_call (f ''unbox_number'') @ f64_add @ fn_call (f ''box_number'') @ local_set v
       @ loop_br 0 @ loop_end @ block_end"
  by (simp add: forInstrs_def encodes_guardInstrs) (simp add: opcode_defs)

lemma wfScopes_enterScope: "wfScopes st \<Longrightarrow> wfScopes (enterScope st)"
  by (simp add: wfScopes_def enterScope_def)

lemma wfScopes_exitScope: "wfScopes st \<Longrightarrow> wfScopes (exitScope st)"
  by (cases "scopes st") (auto simp: wfScopes_def exitScope_def)

lemma localVarsIndex_scope [simp]:
  "localVarsIndex (enterScope st) = localVarsIndex st"
  "localVarsIndex (exitScope st) = localVarsIndex st"
  by (simp_all add: enterScope_def exitScope_def)

lemma wfScopes_same: "wfScopes st \<Longrightarrow> scopes st' = scopes st
    \<Longrightarrow> localVarsIndex st \<le> localVarsIndex st' \<Longrightarrow> wfScopes st'"
  by (fastforce simp: wfScopes_def)

lemma consumeScratchIndex_wf:
  "consumeScratchIndex st = (k, st') \<Longrightarrow> wfScopes st \<Longrightarrow>
     wfScopes st' \<and> k = localVarsIndex st \<and> localVarsIndex st' = Suc k"
  by (auto simp: consumeScratchIndex_def wfScopes_def) fastforce

lemma declareVar_wf:
  assumes d: "declareVar nm isLocal st = (Some i, st')" and wf: "wfScopes st"
  shows "wfScopes st' \<and> i < localVarsIndex st' \<and> localVarsIndex st \<le> localVarsIndex st'"
proof (cases "scopes st")
  case Nil
  with d show ?thesis by (simp add: declareVar_def)
next
  case (Cons sc rest)
  show ?thesis
  proof (cases "if isLocal then None else getVar nm st")
    case None
    with d Cons have "i = localVarsIndex st"
      "st' = st\<lparr>scopes := ((nm, localVarsIndex st) # sc) # rest,
                   localVarsIndex := localVarsIndex st + 1\<rparr>"
      by (auto simp: declareVar_def)
    with wf Cons show ?thesis by (fastforce simp: wfScopes_def)
  next
    case (Some k)
    with d Cons have "i = k" "st' = st" by (auto simp: declareVar_def)
    moreover from Some have "getVar nm st = Some k" by (auto split: if_splits)
    ultimately show ?thesis using getVar_below [OF _ wf] wf by auto
  qed
qed

lemma compileAssign_coded:
  assumes "compileAssign R isLocal identifier expression st = Inr (code, st')" and "wfScopes st"
  shows "coded (localVarsIndex st') code \<and> wfScopes st' \<and> localVarsIndex st \<le> localVarsIndex st'"
proof -
  from assms(1) obtain c st1 where
    e: "compileExpression R expression st = Inr (c, st1)" and
    r: "(case declareVar (id_name identifier) isLocal st1 of
         (None, st2) \<Rightarrow> throw (notDeclared identifier) st2
       | (Some idx, st2) \<Rightarrow> Inr (c @ local_set idx, st2)) = Inr (code, st')"
    by (auto simp: compileAssign_def bind_eq_Inr)
  obtain oi st2 where dv: "declareVar (id_name identifier) isLocal st1 = (oi, st2)"
    by (cases "declareVar (id_name identifier) isLocal st1")
  with r obtain idx where
    d: "declareVar (id_name identifier) isLocal st1 = (Some idx, st')" and
    code: "code = c @ local_set idx"
    by (cases oi) (auto simp: throw_def)
  from compileExpression_coded [OF e assms(2)] have 1: "coded (localVarsIndex st1) c"
    "scopes st1 = scopes st" "localVarsIndex st \<le> localVarsIndex st1" by auto
  from wfScopes_same [OF assms(2) 1(2,3)] have "wfScopes st1" .
  from declareVar_wf [OF d this] 1 show ?thesis
    unfolding code by (auto intro!: coded_append coded_local_set intro: coded_mono)
qed

lemma coded_if:
  "coded n c \<Longrightarrow> coded n t \<Longrightarrow> coded n e \<Longrightarrow>
     coded n (c @ fn_call i @ if_start bt @ t @ if_else @ e @ if_end)"
proof -
  assume "coded n c" "coded n t" "coded n e"
  then obtain C T E where "c = encodes C" "list_all (below n) C" "t = encodes T"
    "list_all (below n) T" "e = encodes E" "list_all (below n) E"
    by (auto elim!: codedE)
  then show ?thesis
    by (intro codedI [of _ "C @ [Call i, If bt T (Some E)]"]) (simp_all add: opcode_defs)
qed

lemma compileStatement_While_parts:
  assumes "compileStatement R (WhileStatement c stmts) st = Inr (code, st')"
  obtains body st1 condition st2 where
    "compileStatements R stmts (enterScope (enterScope st)) = Inr (body, st1)"
    "compileExpression R c (exitScope st1) = Inr (condition, st2)"
    "st' = (exitScope st2)\<lparr>localVarsIndex := localVarsIndex st2 + 1\<rparr>"
    "\<And>C B. condition = encodes C \<Longrightarrow> body = encodes B \<Longrightarrow>
        code = encodes (whileInstrs (func R st') (localVarsIndex st2) C B)"
proof -
  from assms obtain body st1 condition st2 where
    b: "compileStatements R stmts (enterScope (enterScope st)) = Inr (body, st1)" and
    c: "compileExpression R c (exitScope st1) = Inr (condition, st2)" and
    st': "st' = (exitScope st2)\<lparr>localVarsIndex := localVarsIndex st2 + 1\<rparr>" and
    code: "code = i32_const 0 @ local_set (localVarsIndex st2) @ block_start @ loop_start
           @ local_get (localVarsIndex st2) @ i32_const MAX_ITERATIONS @ i32_ge_u
           @ if_start blockType_none @ misc_unreachable @ if_end
           @ local_get (localVarsIndex st2) @ i32_const 1 @ i32_add @ local_set (localVarsIndex st2)
           @ condition @ fn_call (func R st' ''is_truthy'') @ i32_eqz @ loop_br_if 1
           @ body @ loop_br 0 @ loop_end @ block_end"
    by (auto simp: bind_eq_Inr consumeScratchIndex_def)
  show thesis
    by (rule that [OF b c st']) (simp only: code encodes_whileInstrs)
qed


lemma compileStatement_For_parts:
  assumes "compileStatement R (ForStatement isLocal identifier expression condition increment stmts) st
      = Inr (code, st')"
  obtains init st1 loopVar cond st2 step st3 loopBody st4 where
    "compileAssign R isLocal identifier expression (enterScope st) = Inr (init, st1)"
    "getVar (id_name identifier) st1 = Some loopVar"
    "compileExpression R condition (enterScope st1) = Inr (cond, st2)"
    "(case increment of
        Some inc \<Rightarrow> compileExpression R inc st2
      | None \<Rightarrow> Inr (f64_const f64_one @ fn_call (func R st2 ''box_number''), st2)) = Inr (step, st3)"
    "compileStatements R stmts st3 = Inr (loopBody, st4)"
    "st' = (exitScope (exitScope st4))\<lparr>localVarsIndex := localVarsIndex st4 + 2\<rparr>"
    "\<And>I S C B. init = encodes I \<Longrightarrow> step = encodes S \<Longrightarrow> cond = encodes C
        \<Longrightarrow> loopBody = encodes B \<Longrightarrow>
        code = encodes (forInstrs (func R st') (localVarsIndex st4 + 1) (localVarsIndex st4)
                 loopVar I S C B)"
proof -
  from assms obtain init st1 where
    a: "compileAssign R isLocal identifier expression (enterScope st) = Inr (init, st1)" and
    r1: "(case getVar (id_name identifier) st1 of
         None \<Rightarrow> throw (notDeclared identifier) st1
       | Some loopVar \<Rightarrow>
     bind (compileExpression R condition (enterScope st1)) (\<lambda>(cond, st2).
     bind (case increment of
             Some inc \<Rightarrow> compileExpression R inc st2
           | None \<Rightarrow> Inr (f64_const f64_one @ fn_call (func R st2 ''box_number''), st2)) (\<lambda>(step, st3).
     bind (compileStatements R stmts st3) (\<lambda>(loopBody, st4).
       case consumeScratchIndex (exitScope (exitScope st4)) of (isDescending, st5) \<Rightarrow>
       case consumeScratchIndex st5 of (counterIndex, st6) \<Rightarrow>
         Inr (i32_const 0
           @ local_set counterIndex
           @ init
           @ step
           @ fn_call (func R st6 ''unbox_number'')
           @ f64_const 0
           @ f64_lt
           @ local_set isDescending
           @ block_start
           @ loop_start
             @ local_get counterIndex
             @ i32_const MAX_ITERATIONS
             @ i32_ge_u
             @ if_start blockType_none
               @ misc_unreachable
             @ if_end
             @ local_get counterIndex
             @ i32_const 1
             @ i32_add
             @ local_set counterIndex
             @ local_get isDescending
             @ if_start valType_i32
               @ local_get loopVar
               @ fn_call (func R st6 ''unbox_number'')
               @ cond
               @ fn_call (func R st6 ''unbox_number'')
               @ f64_lt
             @ if_else
               @ local_get loopVar
               @ fn_call (func R st6 ''unbox_number'')
               @ cond
               @ fn_call (func R st6 ''unbox_number'')
               @ f64_gt
             @ if_end
             @ loop_br_if 1
             @ loopBody
             @ local_get loopVar
             @ fn_call (func R st6 ''unbox_number'')
             @ step
             @ fn_call (func R st6 ''unbox_number'')
             @ f64_add
             @ fn_call (func R st6 ''box_number'')
             @ local_set loopVar
             @ loop_br 0
           @ loop_end
           @ block_end, st6))))) = Inr (code, st')"
    unfolding compileStatement.simps bind_eq_Inr by (auto simp del: bind_eq_Inr)
  from r1 obtain loopVar where g: "getVar (id_name identifier) st1 = Some loopVar"
    by (cases "getVar (id_name identifier) st1") (auto simp: throw_def)
  from r1 [unfolded g option.case] obtain cond st2 step st3 loopBody st4 where
    c: "compileExpression R condition (enterScope st1) = Inr (cond, st2)" and
    s: "(case increment of
        Some inc \<Rightarrow> compileExpression R inc st2
      | None \<Rightarrow> Inr (f64_const f64_one @ fn_call (func R st2 ''box_number''), st2)) = Inr (step, st3)" and
    b: "compileStatements R stmts st3 = Inr (loopBody, st4)" and
    st': "st' = (exitScope (exitScope st4))\<lparr>localVarsIndex := localVarsIndex st4 + 2\<rparr>" and
    code: "code = i32_const 0 @ local_set (localVarsIndex st4 + 1) @ init @ step
       @ fn_call (func R st' ''unbox_number'') @ f64_const 0 @ f64_lt @ local_set (localVarsIndex st4)
       @ block_start @ loop_start
       @ local_get (localVarsIndex st4 + 1) @ i32_const MAX_ITERATIONS @ i32_ge_u
       @ if_start blockType_none @ misc_unreachable @ if_end
       @ local_get (localVarsIndex st4 + 1) @ i32_const 1 @ i32_add @ local_set (localVarsIndex st4 + 1)
       @ local_get (localVarsIndex st4)
       @ if_start valType_i32
         @ local_get loopVar @ fn_call (func R st' ''unbox_number'') @ cond
         @ fn_call (func R st' ''unbox_number'') @ f64_lt
       @ if_else
         @ local_get loopVar @ fn_call (func R st' ''unbox_number'') @ cond
         @ fn_call (func R st' ''unbox_number'') @ f64_gt
       @ if_end
       @ loop_br_if 1
       @ loopBody
       @ local_get loopVar @ fn_call (func R st' ''unbox_number'') @ step
       @ fn_call (func R st' ''unbox_number'') @ f64_add @ fn_call (func R st' ''box_number'') @ local_set loopVar
       @ loop_br 0 @ loop_end @ block_end"
    by (auto simp: bind_eq_Inr consumeScratchIndex_def)
  show thesis
    by (rule that [OF a g c s b st']) (simp only: code encodes_forInstrs)
qed

lemma compileStatement_If_parts:
  assumes "compileStatement R (IfStatement c thenStmts elifBranches elseStmts) st = Inr (code, st')"
  obtains condition st1 thenBranch st2 elseBlock st5 chain where
    "compileExpression R c st = Inr (condition, st1)"
    "compileStatements R thenStmts (enterScope st1) = Inr (thenBranch, st2)"
    "(case elseStmts of
        None \<Rightarrow> Inr ([], exitScope st2)
      | Some stmts \<Rightarrow>
          bind (compileStatements R stmts (enterScope (exitScope st2))) (\<lambda>(elseBlock, st4).
            Inr (elseBlock, exitScope st4))) = Inr (elseBlock, st5)"
    "compileElifs R elifBranches elseBlock st5 = Inr (chain, st')"
    "code = condition @ fn_call (func R (exitScope st2) ''is_truthy'') @ if_start blockType_none
       @ thenBranch @ if_else @ chain @ if_end"
  using assms by (auto simp: bind_eq_Inr Let_def)

lemma compileStatement_FunctionDecl_parts:
  assumes "compileStatement R (FunctionDeclStatement name ps stmts) st = Inr (code, st')"
  obtains body st3 where
    "\<not> list_ex (\<lambda>f. fd_name f = id_name name) (userDefinedFunctions st)"
    "compileStatements R stmts
       (foldl (\<lambda>s p. snd (declareVar (id_name p) True s))
          (clearScopes (setLocalVarsIndex 0
             (addUserDefinedFunction (id_name name) (map (\<lambda>p. valType_i32) ps) [valType_i32] st))) ps)
       = Inr (body, st3)"
    "code = []"
    "st' = addFunctionBody (id_name name)
       (getLocalDecls R st3 @ (body @ fn_call (func R st3 ''box_nil'') @ fn_return) @ control_end)
       (setScopes (scopes st) (setLocalVarsIndex (localVarsIndex st) st3))"
  using assms
  by (auto simp: bind_eq_Inr Let_def throw_def addUserDefinedFunction_def split: if_splits)

lemma compileStatements_Cons_parts:
  assumes "compileStatements R (stmt # rest) st = Inr (code, st')"
  obtains c st1 cs where
    "compileStatement R stmt st = Inr (c, st1)"
    "compileStatements R rest st1 = Inr (cs, st')"
    "code = c @ cs"
  using assms by (auto simp: bind_eq_Inr)

lemma compileElifs_Cons_parts:
  assumes "compileElifs R ((c, stmts) # rest) elseBlock st = Inr (code, st')"
  obtains chain st1 condition st2 elifBranch st3 where
    "compileElifs R rest elseBlock st = Inr (chain, st1)"
    "compileExpression R c st1 = Inr (condition, st2)"
    "compileStatements R stmts (enterScope st2) = Inr (elifBranch, st3)"
    "st' = exitScope st3"
    "code = condition @ fn_call (func R st' ''is_truthy'') @ if_start blockType_none
       @ elifBranch @ if_else @ chain @ if_end"
  using assms by (auto simp: bind_eq_Inr Let_def)

lemma compileStatement_coded:
  "compileStatement R s st = Inr (code, st') \<Longrightarrow> wfScopes st \<Longrightarrow>
     coded (localVarsIndex st') code \<and> wfScopes st' \<and> localVarsIndex st \<le> localVarsIndex st'"
  and compileStatements_coded:
  "compileStatements R ss st = Inr (code, st') \<Longrightarrow> wfScopes st \<Longrightarrow>
     coded (localVarsIndex st') code \<and> wfScopes st' \<and> localVarsIndex st \<le> localVarsIndex st'"
  and compileElifs_coded:
  "compileElifs R es elseBlock st = Inr (code, st') \<Longrightarrow> wfScopes st \<Longrightarrow>
     coded (localVarsIndex st) elseBlock \<Longrightarrow>
     coded (localVarsIndex st') code \<and> wfScopes st' \<and> localVarsIndex st \<le> localVarsIndex st'"
proof (induction R s st and R ss st and R es elseBlock st
    arbitrary: code st' and code st' and code st'
    rule: compileStatement_compileStatements_compileElifs.induct)
  case (1 R e st)
  then obtain c where e: "compileExpression R e st = Inr (c, st')"
    and code: "code = c @ fn_call (func R st' ''println'')"
    by (auto simp: bind_eq_Inr)
  from compileExpression_coded [OF e "1.prems"(2)] "1.prems"(2) show ?case
    unfolding code by (auto intro!: coded_append intro: wfScopes_same)
next
  case (2 R e st)
  then obtain c where e: "compileExpression R e st = Inr (c, st')"
    and code: "code = c @ fn_call (func R st' ''print'')"
    by (auto simp: bind_eq_Inr)
  from compileExpression_coded [OF e "2.prems"(2)] "2.prems"(2) show ?case
    unfolding code by (auto intro!: coded_append intro: wfScopes_same)
next
  case (3 R idn expr st)
  then show ?case using compileAssign_coded by simp
next
  case (4 R idn expr st)
  then show ?case using compileAssign_coded by simp
next
  case (5 R c thenStmts elifBranches elseStmts st)
  from "5.prems"(1) obtain condition st1 thenBranch st2 elseBlock st5 chain where
    c: "compileExpression R c st = Inr (condition, st1)" and
    t: "compileStatements R thenStmts (enterScope st1) = Inr (thenBranch, st2)" and
    e: "(case elseStmts of
        None \<Rightarrow> Inr ([], exitScope st2)
      | Some stmts \<Rightarrow>
          bind (compileStatements R stmts (enterScope (exitScope st2))) (\<lambda>(elseBlock, st4).
            Inr (elseBlock, exitScope st4))) = Inr (elseBlock, st5)" and
    el: "compileElifs R elifBranches elseBlock st5 = Inr (chain, st')" and
    code: "code = condition @ fn_call (func R (exitScope st2) ''is_truthy'') @ if_start blockType_none
       @ thenBranch @ if_else @ chain @ if_end"
    by (rule compileStatement_If_parts)
  from compileExpression_coded [OF c "5.prems"(2)] have 1: "coded (localVarsIndex st1) condition"
    "scopes st1 = scopes st" "localVarsIndex st \<le> localVarsIndex st1" by auto
  from wfScopes_same [OF "5.prems"(2) 1(2,3)] have w1: "wfScopes st1" .
  from "5.IH"(1) [OF c refl t wfScopes_enterScope [OF w1]]
  have 2: "coded (localVarsIndex st2) thenBranch" "wfScopes st2" "localVarsIndex st1 \<le> localVarsIndex st2"
    by auto
  have 3: "coded (localVarsIndex st5) elseBlock \<and> wfScopes st5 \<and> localVarsIndex st2 \<le> localVarsIndex st5"
  proof (cases elseStmts)
    case None
    with e 2 show ?thesis by (auto intro: wfScopes_exitScope)
  next
    case (Some stmts)
    with e obtain st4 where
      s: "compileStatements R stmts (enterScope (exitScope st2)) = Inr (elseBlock, st4)"
      and st5: "st5 = exitScope st4"
      by (auto simp: bind_eq_Inr)
    from "5.IH"(2) [OF c refl t refl refl refl Some s
        wfScopes_enterScope [OF wfScopes_exitScope [OF 2(2)]]]
    show ?thesis unfolding st5 by (auto intro: wfScopes_exitScope)
  qed
  from "5.IH"(3) [OF c refl t refl refl refl e refl el] 3
  have 4: "coded (localVarsIndex st') chain" "wfScopes st'" "localVarsIndex st5 \<le> localVarsIndex st'"
    by auto
  from 1 2 3 4 have "coded (localVarsIndex st') condition" "coded (localVarsIndex st') thenBranch"
    by (auto intro: coded_mono)
  with 4 1 2 3 show ?case unfolding code by (auto intro!: coded_if)
next
  case (6 R c stmts st)
  from "6.prems"(1) show ?case
  proof (rule compileStatement_While_parts)
  fix body st1 condition st2
  assume b: "compileStatements R stmts (enterScope (enterScope st)) = Inr (body, st1)" and
    c: "compileExpression R c (exitScope st1) = Inr (condition, st2)" and
    st': "st' = (exitScope st2)\<lparr>localVarsIndex := localVarsIndex st2 + 1\<rparr>" and
    code: "\<And>C B. condition = encodes C \<Longrightarrow> body = encodes B \<Longrightarrow>
        code = encodes (whileInstrs (func R st') (localVarsIndex st2) C B)"
  from "6.IH" [OF b wfScopes_enterScope [OF wfScopes_enterScope [OF "6.prems"(2)]]]
  have 1: "coded (localVarsIndex st1) body" "wfScopes st1" "localVarsIndex st \<le> localVarsIndex st1"
    by auto
  from compileExpression_coded [OF c wfScopes_exitScope [OF 1(2)]]
  have 2: "coded (localVarsIndex st2) condition" "scopes st2 = scopes (exitScope st1)"
    "localVarsIndex st1 \<le> localVarsIndex st2" by auto
  from wfScopes_same [OF wfScopes_exitScope [OF 1(2)] 2(2)] 2(3) have w2: "wfScopes st2" by simp
  from 1(1) 2(3) have "coded (Suc (localVarsIndex st2)) body" by (auto intro: coded_mono)
  then obtain B where B: "body = encodes B" "list_all (below (Suc (localVarsIndex st2))) B"
    by (rule codedE)
  from 2(1) have "coded (Suc (localVarsIndex st2)) condition" by (auto intro: coded_mono)
  then obtain C where C: "condition = encodes C" "list_all (below (Suc (localVarsIndex st2))) C"
    by (rule codedE)
  have "coded (localVarsIndex st') code"
    unfolding code [OF C(1) B(1)] st'
    using C(2) B(2)
    by (intro codedI [OF refl]) (auto intro!: below_whileInstrs)
  moreover have "wfScopes st'"
    using wfScopes_exitScope [OF w2] unfolding st' by (fastforce simp: wfScopes_def)
  ultimately show ?case using 1 2 by (simp add: st')
  qed
next
  case (7 R isLocal idn expression condition increment stmts st)
  from "7.prems"(1) show ?case
  proof (rule compileStatement_For_parts)
  fix init st1 loopVar cond st2 step st3 loopBody st4
  assume a: "compileAssign R isLocal idn expression (enterScope st) = Inr (init, st1)" and
    g: "getVar (id_name idn) st1 = Some loopVar" and
    c: "compileExpression R condition (enterScope st1) = Inr (cond, st2)" and
    s: "(case increment of
        Some inc \<Rightarrow> compileExpression R inc st2
      | None \<Rightarrow> Inr (f64_const f64_one @ fn_call (func R st2 ''box_number''), st2)) = Inr (step, st3)" and
    b: "compileStatements R stmts st3 = Inr (loopBody, st4)" and
    st': "st' = (exitScope (exitScope st4))\<lparr>localVarsIndex := localVarsIndex st4 + 2\<rparr>" and
    code: "\<And>I S C B. init = encodes I \<Longrightarrow> step = encodes S \<Longrightarrow> cond = encodes C
        \<Longrightarrow> loopBody = encodes B \<Longrightarrow>
        code = encodes (forInstrs (func R st') (localVarsIndex st4 + 1) (localVarsIndex st4)
                 loopVar I S C B)"
  from compileAssign_coded [OF a wfScopes_enterScope [OF "7.prems"(2)]]
  have 1: "coded (localVarsIndex st1) init" "wfScopes st1" "localVarsIndex st \<le> localVarsIndex st1"
    by auto
  from getVar_below [OF g 1(2)] have lv: "loopVar < localVarsIndex st1" .
  from compileExpression_coded [OF c wfScopes_enterScope [OF 1(2)]]
  have 2: "coded (localVarsIndex st2) cond" "scopes st2 = scopes (enterScope st1)"
    "localVarsIndex st1 \<le> localVarsIndex st2" by auto
  from wfScopes_same [OF wfScopes_enterScope [OF 1(2)] 2(2)] 2(3) have w2: "wfScopes st2" by simp
  have 3: "coded (localVarsIndex st3) step \<and> wfScopes st3 \<and> localVarsIndex st2 \<le> localVarsIndex st3"
  proof (cases increment)
    case None
    with s w2 show ?thesis by (auto intro!: coded_append)
  next
    case (Some inc)
    with s have i: "compileExpression R inc st2 = Inr (step, st3)" by simp
    from compileExpression_coded [OF i w2] wfScopes_same [OF w2] show ?thesis by auto
  qed
  from "7.IH" [OF a refl g c refl s refl b] 3
  have 4: "coded (localVarsIndex st4) loopBody" "wfScopes st4" "localVarsIndex st3 \<le> localVarsIndex st4"
    by auto
  let ?n = "localVarsIndex st4 + 2"
  from 1 2 3 4 have "coded ?n init" "coded ?n cond" "coded ?n step" "coded ?n loopBody"
    by (auto intro: coded_mono)
  then obtain I S C B where
    I: "init = encodes I" "list_all (below ?n) I" and
    S: "step = encodes S" "list_all (below ?n) S" and
    C: "cond = encodes C" "list_all (below ?n) C" and
    B: "loopBody = encodes B" "list_all (below ?n) B"
    by (auto elim!: codedE)
  from lv 1 2 3 4 have lv': "loopVar < ?n" by simp
  have "coded (localVarsIndex st') code"
    unfolding code [OF I(1) S(1) C(1) B(1)] st'
    using I(2) S(2) C(2) B(2) lv'
    by (intro codedI [OF refl]) (auto intro!: below_forInstrs)
  moreover have "wfScopes st'"
    using wfScopes_exitScope [OF wfScopes_exitScope [OF 4(2)]] unfolding st'
    by (fastforce simp: wfScopes_def)
  ultimately show ?case using 1 2 3 4 by (simp add: st')
  qed
next
  case (8 R name ps stmts st)
  from "8.prems"(1) obtain body st3 where
    code: "code = []" and
    st': "st' = addFunctionBody (id_name name)
       (getLocalDecls R st3 @ (body @ fn_call (func R st3 ''box_nil'') @ fn_return) @ control_end)
       (setScopes (scopes st) (setLocalVarsIndex (localVarsIndex st) st3))"
    by (rule compileStatement_FunctionDecl_parts)
  from "8.prems"(2) show ?case
    unfolding code st'
    by (simp add: wfScopes_def addFunctionBody_def setScopes_def setLocalVarsIndex_def)
next
  case (9 R e st)
  then obtain c where e: "compileExpression R e st = Inr (c, st')"
    and code: "code = c @ fn_return"
    by (auto simp: bind_eq_Inr)
  from compileExpression_coded [OF e "9.prems"(2)] "9.prems"(2) show ?case
    unfolding code by (auto simp: fn_return_def intro!: coded_append intro: wfScopes_same)
next
  case (10 R e st)
  have "\<exists>c. compileExpression R e st = Inr (c, st') \<and> (code = c @ misc_drop \<or> code = c)"
    using "10.prems"(1) by (cases e) (auto simp: bind_eq_Inr simp del: compileExpression.simps)
  then obtain c where e: "compileExpression R e st = Inr (c, st')"
    and code: "code = c @ misc_drop \<or> code = c" by blast
  from compileExpression_coded [OF e "10.prems"(2)] "10.prems"(2) code show ?case
    by (auto simp: misc_drop_def intro!: coded_append intro: wfScopes_same)
next
  case (11 R st)
  then show ?case by (simp add: throw_def)
next
  case (12 R st)
  then show ?case by simp
next
  case (13 R stmt rest st)
  from "13.prems"(1) obtain c st1 cs where
    s: "compileStatement R stmt st = Inr (c, st1)" and
    r: "compileStatements R rest st1 = Inr (cs, st')" and
    code: "code = c @ cs"
    by (rule compileStatements_Cons_parts)
  from "13.IH"(1) [OF s "13.prems"(2)]
  have 1: "coded (localVarsIndex st1) c" "wfScopes st1" "localVarsIndex st \<le> localVarsIndex st1"
    by auto
  from "13.IH"(2) [OF s refl r 1(2)]
  have 2: "coded (localVarsIndex st') cs" "wfScopes st'" "localVarsIndex st1 \<le> localVarsIndex st'"
    by auto
  from 1 2 show ?case unfolding code by (auto intro!: coded_append intro: coded_mono)
next
  case (14 R elseBlock st)
  then show ?case by simp
next
  case (15 R c stmts rest elseBlock st)
  from "15.prems"(1) obtain chain st1 condition st2 elifBranch st3 where
    el: "compileElifs R rest elseBlock st = Inr (chain, st1)" and
    c: "compileExpression R c st1 = Inr (condition, st2)" and
    b: "compileStatements R stmts (enterScope st2) = Inr (elifBranch, st3)" and
    st': "st' = exitScope st3" and
    code: "code = condition @ fn_call (func R st' ''is_truthy'') @ if_start blockType_none
       @ elifBranch @ if_else @ chain @ if_end"
    by (rule compileElifs_Cons_parts)
  from "15.IH"(1) [OF el "15.prems"(2,3)]
  have 1: "coded (localVarsIndex st1) chain" "wfScopes st1" "localVarsIndex st \<le> localVarsIndex st1"
    by auto
  from compileExpression_coded [OF c 1(2)]
  have 2: "coded (localVarsIndex st2) condition" "scopes st2 = scopes st1"
    "localVarsIndex st1 \<le> localVarsIndex st2" by auto
  from wfScopes_same [OF 1(2) 2(2,3)] have w2: "wfScopes st2" .
  from "15.IH"(2) [OF el refl c refl b wfScopes_enterScope [OF w2]]
  have 3: "coded (localVarsIndex st3) elifBranch" "wfScopes st3" "localVarsIndex st2 \<le> localVarsIndex st3"
    by auto
  from 1 2 3 have "coded (localVarsIndex st3) chain" "coded (localVarsIndex st3) condition"
    by (auto intro: coded_mono)
  with 1 2 3 show ?case unfolding code st'
    by (auto intro!: coded_if intro: wfScopes_exitScope)
qed

section \<open>The decoder inverts the encoding\<close>

lemma take_bit_low_byte:
  "take_bit 8 w OR push_bit 8 (take_bit n (drop_bit 8 w)) = take_bit (8 + n) (w :: 64 word)"
  by (rule bit_word_eqI) (auto simp: bit_simps)

lemma ucast_low_byte: "ucast (ucast w :: 8 word) = take_bit 8 (w :: 64 word)"
  by (rule bit_word_eqI) (auto simp: bit_simps)

lemma foldr_bytes:
  "foldr (\<lambda>b w. ucast b OR push_bit 8 w)
       (map (\<lambda>i. (ucast (drop_bit (8 * i) v) :: byte)) [k..<k + m]) 0
     = take_bit (8 * m) (drop_bit (8 * k) (v :: 64 word))"
proof (induction m arbitrary: k)
  case 0
  then show ?case by simp
next
  case (Suc m)
  let ?f = "\<lambda>(b :: byte) (w :: 64 word). ucast b OR push_bit 8 w"
  let ?g = "\<lambda>i. (ucast (drop_bit (8 * i) v) :: byte)"
  let ?w = "drop_bit (8 * k) v"
  have l: "[k..<k + Suc m] = k # [Suc k..<Suc k + m]" by (simp add: upt_conv_Cons)
  have d: "drop_bit (8 * Suc k) v = drop_bit 8 ?w"
    by (simp add: drop_bit_drop_bit add.commute)
  have "foldr ?f (map ?g [k..<k + Suc m]) 0
      = ucast (?g k) OR push_bit 8 (foldr ?f (map ?g [Suc k..<Suc k + m]) 0)"
    unfolding l by simp
  also have "\<dots> = ucast (?g k) OR push_bit 8 (take_bit (8 * m) (drop_bit (8 * Suc k) v))"
    by (simp only: Suc)
  also have "\<dots> = take_bit 8 ?w OR push_bit 8 (take_bit (8 * m) (drop_bit 8 ?w))"
    by (simp only: d ucast_low_byte)
  also have "\<dots> = take_bit (8 + 8 * m) ?w" by (rule take_bit_low_byte)
  finally show ?case by simp
qed

lemma f64_of_bytes_roundtrip:
  "f64_of_bytes (map (\<lambda>i. ucast (drop_bit (8 * i) v)) [0..<8]) = (v :: 64 word)"
  using foldr_bytes [of v 0 8] by (simp add: f64_of_bytes_def take_bit_word_eq_self)

lemma isPlain_opcode:
  "isPlain b \<Longrightarrow> b \<noteq> 0x0B \<and> b \<noteq> 0x05 \<and> b \<noteq> 0x02 \<and> b \<noteq> 0x03 \<and> b \<noteq> 0x04 \<and> b \<noteq> 0x0C
     \<and> b \<noteq> 0x0D \<and> b \<noteq> 0x10 \<and> b \<noteq> 0x20 \<and> b \<noteq> 0x21 \<and> b \<noteq> 0x41 \<and> b \<noteq> 0x44"
  by (auto simp: isPlain_def)

lemma read_f64_f64_const: "read_f64 (map (\<lambda>i. ucast (drop_bit (8 * i) v)) [0..<8] @ rest) = Some (v, rest)"
  using f64_of_bytes_roundtrip [of v] by (simp add: read_f64_def)

lemma prepend_Some [simp]: "prepend i (Some (is, t, rest)) = Some (i # is, t, rest)"
  by (simp add: prepend_def)

lemma below_encode_nonempty: "below k i \<Longrightarrow> encode i \<noteq> []"
  by (cases i) (simp_all add: f64_const_def)

lemma parse_encode:
  "below k i \<Longrightarrow> length (encode i) < n \<Longrightarrow> parse n (encode i @ bs) = prepend i (parse (n - 1) bs)"
  and parse_encodes:
  "list_all (below k) is \<Longrightarrow> length (encodes is) < n \<Longrightarrow> t = 0x0B \<or> t = 0x05
     \<Longrightarrow> parse n (encodes is @ t # rest) = Some (is, Some t, rest)"
proof (induction i and "is" arbitrary: n bs and n t rest rule: encode_encodes.induct)
  case (1 b)
  then obtain m where n: "n = Suc m" by (cases n) auto
  from 1 have "isPlain b" by simp
  from isPlain_opcode [OF this] this show ?case by (simp add: n)
next
  case (2 bt body)
  then obtain m where n: "n = Suc m" by (cases n) auto
  from 2(2,3) have "list_all (below k) body" "length (encodes body) < m" by (simp_all add: n)
  from 2(1) [OF this, of "0x0B" bs] show ?case by (simp add: n)
next
  case (3 bt body)
  then obtain m where n: "n = Suc m" by (cases n) auto
  from 3(2,3) have "list_all (below k) body" "length (encodes body) < m" by (simp_all add: n)
  from 3(1) [OF this, of "0x0B" bs] show ?case by (simp add: n)
next
  case (4 bt thn els)
  then obtain m where n: "n = Suc m" by (cases n) auto
  from 4(3,4) have t: "list_all (below k) thn" "length (encodes thn) < m" by (simp_all add: n)
  show ?case
  proof (cases els)
    case None
    from 4(1) [OF t, of "0x0B" bs] show ?thesis by (simp add: n None)
  next
    case (Some body)
    from 4(3,4) have b: "list_all (below k) body" "length (encodes body) < m"
      by (simp_all add: n Some)
    from 4(1) [OF t, of "0x05" "encodes body @ 0x0B # bs"] 4(2) [OF Some b, of "0x0B" bs]
    show ?thesis by (simp add: n Some)
  qed
next
  case (5 d)
  then obtain m where n: "n = Suc m" by (cases n) auto
  show ?case by (simp add: n read_uleb_unsignedLEB)
next
  case (6 d)
  then obtain m where n: "n = Suc m" by (cases n) auto
  show ?case by (simp add: n read_uleb_unsignedLEB)
next
  case (7 f)
  then obtain m where n: "n = Suc m" by (cases n) auto
  show ?case by (simp add: n read_uleb_unsignedLEB)
next
  case (8 i)
  then obtain m where n: "n = Suc m" by (cases n) auto
  show ?case by (simp add: n read_uleb_unsignedLEB)
next
  case (9 i)
  then obtain m where n: "n = Suc m" by (cases n) auto
  show ?case by (simp add: n read_uleb_unsignedLEB)
next
  case (10 v)
  then obtain m where n: "n = Suc m" by (cases n) auto
  show ?case by (simp add: n read_sleb_signedLEB)
next
  case (11 v)
  then obtain m where n: "n = Suc m" by (cases n) auto
  show ?case by (simp add: n f64_const_def read_f64_f64_const del: upt_Suc)
next
  case 12
  then show ?case by simp
next
  case 13
  then obtain m where n: "n = Suc m" by (cases n) auto
  from 13(3) show ?case by (auto simp: n)
next
  case (14 i "is")
  from 14(3) have i: "below k i" and r: "list_all (below k) is" by simp_all
  from below_encode_nonempty [OF i] 14(4) have l: "length (encode i) < n" "length (encodes is) < n - 1"
    by (cases "encode i"; simp)+
  from 14(1) [OF i l(1), of "encodes is @ t # rest"] 14(2) [OF r l(2) 14(5), of rest]
  show ?case by simp
qed

lemma parse_encodes_all:
  "list_all (below k) is \<Longrightarrow> length (encodes is) < n \<Longrightarrow> parse n (encodes is) = Some (is, None, [])"
proof (induction "is" arbitrary: n)
  case Nil
  then show ?case by (cases n) simp_all
next
  case (Cons i "is")
  from Cons.prems have i: "below k i" and r: "list_all (below k) is" by simp_all
  from below_encode_nonempty [OF i] Cons.prems(2)
  have l: "length (encode i) < n" "length (encodes is) < n - 1"
    by (cases "encode i"; simp)+
  from parse_encode [OF i l(1), of "encodes is"] Cons.IH [OF r l(2)] show ?case by simp
qed

lemma decode_encodes: "list_all (below k) is \<Longrightarrow> decode (encodes is) = Some is"
  by (simp add: decode_def parse_encodes_all)

section \<open>Properties of the interpreter\<close>

lemma framed_refl [simp]: "framed k c c"
  by (simp add: framed_def)

lemma framed_trans: "framed k c c' \<Longrightarrow> framed k c' c'' \<Longrightarrow> framed k c c''"
  by (simp add: framed_def)

lemma framed_stack [simp]: "framed k c (c'\<lparr>stack := s\<rparr>) = framed k c c'"
  "framed k (c\<lparr>stack := s\<rparr>) c' = framed k c c'"
  by (simp_all add: framed_def)

lemma framed_store [simp]: "framed k c (c'\<lparr>store := g\<rparr>) = framed k c c'"
  by (simp add: framed_def)

lemma framed_local: "i < k \<Longrightarrow> framed k c (c'\<lparr>locals := (locals c')(i := v)\<rparr>) = framed k c c'"
  by (auto simp: framed_def)

lemma plain_framed: "framed k c (config_of (plain E b c))"
  by (auto simp: plain_def split: list.splits val.splits option.splits)

lemma exec_append:
  "exec n E (xs @ ys) c = (case exec n E xs c of Normal c' \<Rightarrow> exec n E ys c' | out \<Rightarrow> out)"
proof (induction xs arbitrary: c)
  case Nil
  then show ?case by simp
next
  case (Cons i xs)
  then show ?case by (cases "exec1 n E i c") simp_all
qed

lemma exec1_framed: "below k i \<Longrightarrow> framed k c (config_of (exec1 n E i c))"
  and exec_framed: "list_all (below k) is \<Longrightarrow> framed k c (config_of (exec n E is c))"
proof (induction n E i c and n E "is" c rule: exec1_exec.induct)
  case (1 E i c)
  then show ?case by simp
next
  case (2 n E c)
  then show ?case by simp
next
  case (3 n E b c)
  then show ?case by (simp add: plain_framed)
next
  case (4 n E bt body c)
  then show ?case by (cases "exec n E body c") (auto split: nat.splits)
next
  case (5 n E bt body c)
  from 5(1) 5(3) have f: "framed k c (config_of (exec n E body c))" by simp
  show ?case
  proof (cases "exec n E body c")
    case (Breaking d c')
    show ?thesis
    proof (cases d)
      case 0
      with Breaking f 5(2) [OF Breaking 0 5(3)] show ?thesis
        by (auto intro: framed_trans [of k c "c'\<lparr>stack := stack c\<rparr>"])
    next
      case (Suc d')
      with Breaking f show ?thesis by simp
    qed
  qed (use f in auto)
next
  case (6 n E bt thn els c)
  show ?case
  proof (cases "stack c")
    case Nil
    then show ?thesis by simp
  next
    case (Cons v s)
    show ?thesis
    proof (cases v)
      case (F64 x)
      with Cons show ?thesis by simp
    next
      case (I32 w)
      let ?body = "if w \<noteq> 0 then thn else (case els of None \<Rightarrow> [] | Some body \<Rightarrow> body)"
      from 6(2) have "list_all (below k) ?body" by (auto split: option.splits)
      with 6(1) [OF Cons I32] have "framed k c (config_of (exec n E ?body (c\<lparr>stack := s\<rparr>)))"
        by simp
      with Cons I32 show ?thesis
        by (cases "exec n E ?body (c\<lparr>stack := s\<rparr>)") (auto split: nat.splits)
    qed
  qed
next
  case (7 n E d c)
  then show ?case by simp
next
  case (8 n E d c)
  then show ?case by (auto split: list.splits val.splits)
next
  case (9 n E f c)
  then show ?case by (cases "callee E f (stack c) (store c)") (simp_all add: framed_def)
next
  case (10 n E i c)
  then show ?case by simp
next
  case (11 n E i c)
  then show ?case by (cases "stack c") (auto simp: framed_def)
next
  case (12 n E v c)
  then show ?case by simp
next
  case (13 n E v c)
  then show ?case by simp
next
  case (14 n E c)
  then show ?case by simp
next
  case (15 n E i "is" c)
  from 15(1) 15(3) have f: "framed k c (config_of (exec1 n E i c))" by simp
  show ?case
  proof (cases "exec1 n E i c")
    case (Normal c')
    with f 15(2) [OF Normal] 15(3) show ?thesis by (auto intro: framed_trans)
  qed (use f in auto)
qed

text \<open>The guard: with the counter at \<open>w\<close>, it traps when \<open>w\<close> has reached the cap and
  otherwise increments the counter and goes on.\<close>

lemma exec_guard_start:
  assumes "locals c k = I32 w"
  shows "exec (Suc n) E (guardInstrs k @ rest) c =
    (if word_of_int MAX_ITERATIONS \<le> w
     then (if n = 0 then Timeout (c\<lparr>stack := stack c\<rparr>) else Trapped (c\<lparr>stack := stack c\<rparr>))
     else exec (Suc n) E rest (c\<lparr>stack := stack c, locals := (locals c)(k := I32 (w + 1))\<rparr>))"
  using assms by (cases n) (simp_all add: guardInstrs_def plain_def bool32_def arity_def)

lemma exec_probed:
  assumes C: "list_all (below k) C" and B: "list_all (below k) B"
  shows "probes (config_of (exec n E (C @ Probe # B) c)) \<le> probes c + 1
    \<and> locals (config_of (exec n E (C @ Probe # B) c)) k = locals c k"
proof (cases "exec n E C c")
  case (Normal c')
  from exec_framed [OF C, of c n E] Normal have f: "framed k c c'" by simp
  show ?thesis
  proof (cases n)
    case 0
    with Normal f show ?thesis by (simp add: exec_append framed_def)
  next
    case (Suc n')
    from exec_framed [OF B, of "c'\<lparr>probes := probes c' + 1\<rparr>" n E] f Normal Suc
    show ?thesis by (simp add: exec_append framed_def)
  qed
qed (use exec_framed [OF C, of c n E] in \<open>auto simp: exec_append framed_def\<close>)

lemma exec_cappedBody:
  assumes C: "list_all (below k) C" and B: "list_all (below k) B" and w: "locals c k = I32 w"
  shows "if word_of_int MAX_ITERATIONS \<le> w
    then probes (config_of (exec n E (cappedBody k C B) c)) = probes c
      \<and> (\<forall>d c'. exec n E (cappedBody k C B) c \<noteq> Breaking d c')
    else probes (config_of (exec n E (cappedBody k C B) c)) \<le> probes c + 1
      \<and> (\<forall>d c'. exec n E (cappedBody k C B) c = Breaking d c' \<longrightarrow> locals c' k = I32 (w + 1))"
proof (cases n)
  case 0
  then show ?thesis by (simp add: cappedBody_def guardInstrs_def)
next
  case (Suc n')
  let ?c1 = "c\<lparr>stack := stack c, locals := (locals c)(k := I32 (w + 1))\<rparr>"
  from exec_probed [OF C B, of "Suc n'" E ?c1] Suc w show ?thesis
    unfolding cappedBody_def by (auto simp: exec_guard_start)
qed

lemma cap_reached: "m \<le> 10000 \<Longrightarrow> (word_of_int MAX_ITERATIONS \<le> (of_nat m :: 32 word)) = (m = 10000)"
  by (auto simp: MAX_ITERATIONS_def word_le_nat_alt unat_of_nat)

lemma exec1_loop_bound:
  assumes C: "list_all (below k) C" and B: "list_all (below k) B"
  shows "m \<le> 10000 \<Longrightarrow> locals c k = I32 (of_nat m)
    \<Longrightarrow> probes (config_of (exec1 n E (Loop bt (cappedBody k C B)) c)) + m \<le> probes c + 10000"
proof (induction n arbitrary: m c)
  case 0
  then show ?case by simp
next
  case (Suc n)
  note body = exec_cappedBody [OF C B Suc.prems(2), of n E]
  show ?case
  proof (cases "m = 10000")
    case True
    with body Suc.prems(1) cap_reached [of m]
    have p: "probes (config_of (exec n E (cappedBody k C B) c)) = probes c"
      and nb: "\<And>d c'. exec n E (cappedBody k C B) c \<noteq> Breaking d c'" by auto
    from p nb show ?thesis
      by (cases "exec n E (cappedBody k C B) c") (auto simp: True)
  next
    case False
    with Suc.prems(1) have m: "m < 10000" by simp
    with body cap_reached [of m]
    have p: "probes (config_of (exec n E (cappedBody k C B) c)) \<le> probes c + 1"
      and l: "\<And>d c'. exec n E (cappedBody k C B) c = Breaking d c' \<Longrightarrow> locals c' k = I32 (of_nat m + 1)"
      by auto
    show ?thesis
    proof (cases "exec n E (cappedBody k C B) c")
      case (Breaking d c')
      show ?thesis
      proof (cases d)
        case 0
        from l [OF Breaking] have "locals (c'\<lparr>stack := stack c\<rparr>) k = I32 (of_nat (Suc m))" by simp
        from Suc.IH [OF _ this] m
        have "probes (config_of (exec1 n E (Loop bt (cappedBody k C B)) (c'\<lparr>stack := stack c\<rparr>))) + Suc m
          \<le> probes c' + 10000" by simp
        with p Breaking 0 show ?thesis by simp
      next
        case (Suc d')
        with Breaking p m show ?thesis by simp
      qed
    qed (use p m in auto)
  qed
qed

text \<open>A loop statement: the counter is set to 0, code \<open>P\<close> that does not touch the counter
  may follow, then comes the block with the loop.\<close>

lemma exec_loop_statement:
  assumes P: "list_all (below k) P" and C: "list_all (below k) C" and B: "list_all (below k) B"
  shows "probes (config_of (exec n E
      ([I32Const 0, LocalSet k] @ P @ [Block bt [Loop bt' (cappedBody k C B)]]) c))
    \<le> probes c + 10000"
proof (cases n)
  case 0
  then show ?thesis by simp
next
  case (Suc n')
  let ?c1 = "c\<lparr>locals := (locals c)(k := I32 0), stack := stack c\<rparr>"
  let ?L = "[Block bt [Loop bt' (cappedBody k C B)]]"
  have start: "exec (Suc n') E ([I32Const 0, LocalSet k] @ P @ ?L) c =
    (case exec (Suc n') E P ?c1 of Normal c' \<Rightarrow> exec (Suc n') E ?L c' | out \<Rightarrow> out)"
    by (simp add: exec_append)
  from exec_framed [OF P, of ?c1 "Suc n'" E]
  have f: "framed k ?c1 (config_of (exec (Suc n') E P ?c1))" .
  have "probes (config_of (case exec (Suc n') E P ?c1 of
      Normal c' \<Rightarrow> exec (Suc n') E ?L c' | out \<Rightarrow> out)) \<le> probes c + 10000"
  proof (cases "exec (Suc n') E P ?c1")
    case (Normal c2)
    with f have c2: "probes c2 = probes c" "locals c2 k = I32 (of_nat 0)"
      by (simp_all add: framed_def)
    have "probes (config_of (exec (Suc n') E ?L c2)) \<le> probes c2 + 10000"
    proof -
      from exec1_loop_bound [OF C B _ c2(2), of n' E bt']
      have b: "probes (config_of (exec1 n' E (Loop bt' (cappedBody k C B)) c2)) \<le> probes c2 + 10000"
        by simp
      show ?thesis
        using b
        by (cases "exec1 n' E (Loop bt' (cappedBody k C B)) c2") (auto split: nat.splits)
    qed
    with Normal c2 show ?thesis by simp
  qed (use f in \<open>auto simp: framed_def\<close>)
  then show ?thesis unfolding Suc start .
qed

section \<open>The lowering of expressions and statements\<close>

lemma wfScopes_exampleState: "wfScopes exampleState"
  by (simp add: wfScopes_def exampleState_def)

lemma compileExpression_Binary_parts:
  assumes "compileExpression R (BinaryExpression operator l r) st = Inr (code, st')"
  obtains left st1 right st2 where
    "compileExpression R l st = Inr (left, st1)"
    "compileExpression R r st1 = Inr (right, st2)"
    "binaryCode R operator left right st2 = Inr (code, st')"
  using assms by (auto simp: bind_eq_Inr)

lemma compileExpression_operands:
  assumes l: "compileExpression R l st = Inr (left, st1)"
    and r: "compileExpression R r st1 = Inr (right, st2)"
    and wf: "wfScopes st"
  obtains L Rr where "left = encodes L" "right = encodes Rr"
    "list_all (below (localVarsIndex st2)) L" "list_all (below (localVarsIndex st2)) Rr"
proof -
  from compileExpression_coded [OF l wf] have 1: "coded (localVarsIndex st1) left"
    "scopes st1 = scopes st" "localVarsIndex st \<le> localVarsIndex st1" by auto
  from compileExpression_coded [OF r wfScopes_same [OF wf 1(2,3)]]
  have 2: "coded (localVarsIndex st2) right" "localVarsIndex st1 \<le> localVarsIndex st2" by auto
  from coded_mono [OF 1(1) 2(2)] 2(1) that show thesis by (auto elim!: codedE)
qed

lemma compileElifs_chain:
  "compileElifs R es (encodes E) st = Inr (chain, st') \<Longrightarrow> wfScopes st \<Longrightarrow>
     list_all (below (localVarsIndex st)) E \<Longrightarrow>
     \<exists>branches. chain = encodes (chainInstrs branches E) \<and> elifChain R es branches st st'"
proof (induction es arbitrary: chain st')
  case Nil
  then show ?case by (auto intro: exI [of _ "[]"])
next
  case (Cons a es)
  obtain c stmts where a: "a = (c, stmts)" by (cases a)
  from Cons.prems(1) [unfolded a] obtain rest st1 condition st2 elifBranch st3 where
    el: "compileElifs R es (encodes E) st = Inr (rest, st1)" and
    c: "compileExpression R c st1 = Inr (condition, st2)" and
    b: "compileStatements R stmts (enterScope st2) = Inr (elifBranch, st3)" and
    st': "st' = exitScope st3" and
    code: "chain = condition @ fn_call (func R st' ''is_truthy'') @ if_start blockType_none
       @ elifBranch @ if_else @ rest @ if_end"
    by (rule compileElifs_Cons_parts)
  from Cons.IH [OF el Cons.prems(2,3)] obtain branches where
    br: "rest = encodes (chainInstrs branches E)" "elifChain R es branches st st1" by blast
  from compileElifs_coded [OF el Cons.prems(2) codedI [OF refl Cons.prems(3)]]
  have w1: "wfScopes st1" by simp
  from compileExpression_coded [OF c w1] obtain C where C: "condition = encodes C"
    and s2: "scopes st2 = scopes st1" "localVarsIndex st1 \<le> localVarsIndex st2"
    by (auto elim!: codedE)
  from compileStatements_coded [OF b wfScopes_enterScope [OF wfScopes_same [OF w1 s2]]]
  obtain B where B: "elifBranch = encodes B" by (auto elim!: codedE)
  have "elifChain R ((c, stmts) # es) ((func R st' ''is_truthy'', C, B) # branches) st st'"
    using br(2) c b C B st' by auto
  moreover have "chain = encodes (chainInstrs ((func R st' ''is_truthy'', C, B) # branches) E)"
    unfolding code C B br(1) by (simp add: opcode_defs)
  ultimately show ?case using a by (intro exI [of _ "(func R st' ''is_truthy'', C, B) # branches"]) simp
qed

lemma map_of_setBody: "map_of (setBody nm b kvs) nm = Some b"
  by (induction kvs) auto

lemma wfScopes_declare_params:
  "wfScopes s \<Longrightarrow> wfScopes (foldl (\<lambda>s p. snd (declareVar (id_name p) True s)) s ps)"
proof (induction ps arbitrary: s)
  case Nil
  then show ?case by simp
next
  case (Cons p ps)
  obtain r s1 where d: "declareVar (id_name p) True s = (r, s1)"
    by (cases "declareVar (id_name p) True s")
  have "wfScopes s1"
  proof (cases r)
    case None
    with d have "s1 = s" by (auto simp: declareVar_def split: list.splits)
    with Cons.prems show ?thesis by simp
  next
    case (Some i)
    from declareVar_wf [OF d [unfolded Some] Cons.prems] show ?thesis by simp
  qed
  from Cons.IH [OF this] d show ?case by simp
qed

lemma wfScopes_functionEntry: "wfScopes (functionEntry name ps st)"
  unfolding functionEntry_def
  by (rule wfScopes_declare_params) (simp add: wfScopes_def clearScopes_def)

lemma result_cases:
  "(case r of Inr x \<Rightarrow> True | Inl e \<Rightarrow> False) \<Longrightarrow> \<exists>code st'. r = Inr (code, st')"
  by (cases r) auto


text \<open>
  Claim C4: for every binary \<open>+\<close> expression the emitted code chooses at run time among
  exactly three branches.  The code is the encoding of this tree, over the trees \<open>L\<close> and
  \<open>Rr\<close> of the operands: \<open>is_string\<close> of the left operand, \<open>is_string\<close> of the right,
  \<open>i32.or\<close> (0x72), and an \<open>if\<close> whose then arm calls \<open>concat\<close> on both operands and
  whose else arm tests \<open>is_bool\<close> of the left or of the right in the same way, with an
  inner \<open>if\<close>: its then arm passes both operands through \<open>to_number\<close> and
  \<open>unbox_number\<close>, adds them with \<open>f64.add\<close> (0xA0) and boxes the sum with
  \<open>box_number\<close>; its else arm unboxes both, adds and boxes.
\<close>

theorem plus_dispatch:
  assumes c: "compileExpression R (BinaryExpression ''+'' l r) st = Inr (code, st')"
    and wf: "wfScopes st"
  shows "\<exists>left st1 right L Rr.
      compileExpression R l st = Inr (left, st1)
    \<and> compileExpression R r st1 = Inr (right, st')
    \<and> left = encodes L \<and> right = encodes Rr
    \<and> code = encodes
        (L @ [Call (func R st' ''is_string'')] @ Rr
         @ [Call (func R st' ''is_string''), Plain 0x72,
            If valType_i32
              (L @ Rr @ [Call (func R st' ''concat'')])
              (Some (L @ [Call (func R st' ''is_bool'')] @ Rr
                 @ [Call (func R st' ''is_bool''), Plain 0x72,
                    If valType_i32
                      (L @ [Call (func R st' ''to_number''), Call (func R st' ''unbox_number'')]
                       @ Rr @ [Call (func R st' ''to_number''), Call (func R st' ''unbox_number''),
                               Plain 0xA0, Call (func R st' ''box_number'')])
                      (Some (L @ [Call (func R st' ''unbox_number'')]
                       @ Rr @ [Call (func R st' ''unbox_number''),
                               Plain 0xA0, Call (func R st' ''box_number'')]))]))])"
proof -
  from c obtain left st1 right st2 where
    l: "compileExpression R l st = Inr (left, st1)" and
    r: "compileExpression R r st1 = Inr (right, st2)" and
    b: "binaryCode R ''+'' left right st2 = Inr (code, st')"
    by (rule compileExpression_Binary_parts)
  from l r wf obtain L Rr where LR: "left = encodes L" "right = encodes Rr"
    by (rule compileExpression_operands)
  from binaryCode_plus [OF b [unfolded LR]] have st: "st' = st2"
    and code: "code = encodes (plusInstrs (func R st2) L Rr)" by auto
  show ?thesis
    using l r LR code unfolding st plusInstrs_def by blast
qed

theorem plus_dispatch_witness:
  "\<exists>code st' L Rr. compileExpression exampleRuntime plusExample exampleState = Inr (code, st')
    \<and> code = encodes
        (L @ [Call (func exampleRuntime st' ''is_string'')] @ Rr
         @ [Call (func exampleRuntime st' ''is_string''), Plain 0x72,
            If valType_i32
              (L @ Rr @ [Call (func exampleRuntime st' ''concat'')])
              (Some (L @ [Call (func exampleRuntime st' ''is_bool'')] @ Rr
                 @ [Call (func exampleRuntime st' ''is_bool''), Plain 0x72,
                    If valType_i32
                      (L @ [Call (func exampleRuntime st' ''to_number''), Call (func exampleRuntime st' ''unbox_number'')]
                       @ Rr @ [Call (func exampleRuntime st' ''to_number''), Call (func exampleRuntime st' ''unbox_number''),
                               Plain 0xA0, Call (func exampleRuntime st' ''box_number'')])
                      (Some (L @ [Call (func exampleRuntime st' ''unbox_number'')]
                       @ Rr @ [Call (func exampleRuntime st' ''unbox_number''),
                               Plain 0xA0, Call (func exampleRuntime st' ''box_number'')]))]))])"
proof -
  have "case compileExpression exampleRuntime plusExample exampleState of
      Inr x \<Rightarrow> True | Inl e \<Rightarrow> False"
    by code_simp
  then obtain code st' where
    ok: "compileExpression exampleRuntime plusExample exampleState = Inr (code, st')"
    by (auto dest: result_cases)
  from plus_dispatch [OF ok [unfolded plusExample_def] wfScopes_exampleState] ok
  show ?thesis by blast
qed


text \<open>
  Claim C5: for every \<open>and\<close> and every \<open>or\<close> expression the code of the left operand
  occurs once, before a \<open>local.set\<close> into a scratch slot that neither operand's code
  reads or writes; the slot is read back for \<open>is_truthy\<close>, and an \<open>if\<close> follows.  For
  \<open>and\<close> the code of the right operand is the then arm and the stored left value the else
  arm; for \<open>or\<close> the stored left value is the then arm and the code of the right operand
  the else arm.  So the right operand is evaluated in one arm only.
\<close>

theorem and_or_short_circuit:
  assumes c: "compileExpression R (BinaryExpression operator l r) st = Inr (code, st')"
    and op: "operator = ''and'' \<or> operator = ''or''"
    and wf: "wfScopes st"
  shows "\<exists>left st1 right st2 L Rr scratch.
      compileExpression R l st = Inr (left, st1)
    \<and> compileExpression R r st1 = Inr (right, st2)
    \<and> left = encodes L \<and> right = encodes Rr
    \<and> scratch = localVarsIndex st2
    \<and> list_all (below scratch) L \<and> list_all (below scratch) Rr
    \<and> st' = st2\<lparr>localVarsIndex := scratch + 1\<rparr>
    \<and> code = encodes
        (L @ [LocalSet scratch, LocalGet scratch, Call (func R st' ''is_truthy''),
              If valType_i32
                (if operator = ''and'' then Rr else [LocalGet scratch])
                (Some (if operator = ''and'' then [LocalGet scratch] else Rr))])"
proof -
  from c obtain left st1 right st2 where
    l: "compileExpression R l st = Inr (left, st1)" and
    r: "compileExpression R r st1 = Inr (right, st2)" and
    b: "binaryCode R operator left right st2 = Inr (code, st')"
    by (rule compileExpression_Binary_parts)
  from l r wf obtain L Rr where LR: "left = encodes L" "right = encodes Rr"
    and bl: "list_all (below (localVarsIndex st2)) L" "list_all (below (localVarsIndex st2)) Rr"
    by (rule compileExpression_operands)
  from op show ?thesis
  proof
    assume a: "operator = ''and''"
    from binaryCode_and [OF b [unfolded LR a]]
    have "st' = st2\<lparr>localVarsIndex := localVarsIndex st2 + 1\<rparr>"
      "code = encodes (andInstrs (func R st') (localVarsIndex st2) L Rr)" by auto
    with l r LR bl a show ?thesis unfolding andInstrs_def by auto
  next
    assume o: "operator = ''or''"
    from binaryCode_or [OF b [unfolded LR o]]
    have "st' = st2\<lparr>localVarsIndex := localVarsIndex st2 + 1\<rparr>"
      "code = encodes (orInstrs (func R st') (localVarsIndex st2) L Rr)" by auto
    with l r LR bl o show ?thesis unfolding orInstrs_def by auto
  qed
qed

theorem and_or_short_circuit_witness:
  "\<exists>code st' st2 L Rr scratch.
      compileExpression exampleRuntime andExample exampleState = Inr (code, st')
    \<and> scratch = localVarsIndex st2
    \<and> list_all (below scratch) L \<and> list_all (below scratch) Rr
    \<and> st' = st2\<lparr>localVarsIndex := scratch + 1\<rparr>
    \<and> code = encodes
        (L @ [LocalSet scratch, LocalGet scratch, Call (func exampleRuntime st' ''is_truthy''),
              If valType_i32 Rr (Some [LocalGet scratch])])"
proof -
  have "case compileExpression exampleRuntime andExample exampleState of
      Inr x \<Rightarrow> True | Inl e \<Rightarrow> False"
    by code_simp
  then obtain code st' where
    ok: "compileExpression exampleRuntime andExample exampleState = Inr (code, st')"
    by (auto dest: result_cases)
  from and_or_short_circuit [OF ok [unfolded andExample_def] _ wfScopes_exampleState] ok
  show ?thesis by (simp del: encodes.simps encodes_append) blast
qed


text \<open>
  Claim C6: for every numeric \<open>for\<close> statement the emitted code computes
  \<open>is_descending\<close> as \<open>step < 0\<close> (\<open>f64.const 0\<close>, \<open>f64.lt\<close> 0x63) once, before the
  block of the loop, into a slot that no other part of the code touches; in each
  iteration it takes the comparison \<open>loop variable < stop\<close> (0x63) when \<open>is_descending\<close>
  is set and \<open>loop variable > stop\<close> (0x64) otherwise, and leaves the loop with \<open>br_if 1\<close>
  when the comparison gives 1; an absent step is the boxed number 1.
\<close>

theorem for_loop_direction:
  assumes c: "compileStatement R (ForStatement isLocal idn e condition increment stmts) st
      = Inr (code, st')"
    and wf: "wfScopes st"
  shows "\<exists>st1 loopVar st2 st3 st4 INIT STEP COND B isDescending counter unbox.
      compileAssign R isLocal idn e (enterScope st) = Inr (encodes INIT, st1)
    \<and> getVar (id_name idn) st1 = Some loopVar
    \<and> compileExpression R condition (enterScope st1) = Inr (encodes COND, st2)
    \<and> (case increment of
          Some inc \<Rightarrow> compileExpression R inc st2 = Inr (encodes STEP, st3)
        | None \<Rightarrow> STEP = [F64Const f64_one, Call (func R st2 ''box_number'')] \<and> st3 = st2)
    \<and> compileStatements R stmts st3 = Inr (encodes B, st4)
    \<and> isDescending = localVarsIndex st4 \<and> counter = localVarsIndex st4 + 1
    \<and> list_all (below isDescending) (INIT @ STEP @ COND @ B)
    \<and> loopVar < isDescending
    \<and> unbox = func R st' ''unbox_number''
    \<and> code = encodes
        ([I32Const 0, LocalSet counter]
         @ INIT
         @ STEP @ [Call unbox, F64Const 0, Plain 0x63, LocalSet isDescending,
          Block blockType_none
            [Loop blockType_none
               ([LocalGet counter, I32Const MAX_ITERATIONS, Plain 0x4F,
                 If blockType_none [Plain 0x00] None,
                 LocalGet counter, I32Const 1, Plain 0x6A, LocalSet counter]
                @ [LocalGet isDescending,
                   If valType_i32
                     ([LocalGet loopVar, Call unbox] @ COND @ [Call unbox, Plain 0x63])
                     (Some ([LocalGet loopVar, Call unbox] @ COND @ [Call unbox, Plain 0x64])),
                   BrIf 1]
                @ B
                @ [LocalGet loopVar, Call unbox] @ STEP
                @ [Call unbox, Plain 0xA0, Call (func R st' ''box_number''),
                   LocalSet loopVar, Br 0])]])"
  using c
proof (rule compileStatement_For_parts)
  fix init st1 loopVar cond st2 step st3 loopBody st4
  assume a: "compileAssign R isLocal idn e (enterScope st) = Inr (init, st1)" and
    g: "getVar (id_name idn) st1 = Some loopVar" and
    c: "compileExpression R condition (enterScope st1) = Inr (cond, st2)" and
    s: "(case increment of
        Some inc \<Rightarrow> compileExpression R inc st2
      | None \<Rightarrow> Inr (f64_const f64_one @ fn_call (func R st2 ''box_number''), st2)) = Inr (step, st3)" and
    b: "compileStatements R stmts st3 = Inr (loopBody, st4)" and
    st': "st' = (exitScope (exitScope st4))\<lparr>localVarsIndex := localVarsIndex st4 + 2\<rparr>" and
    code: "\<And>I S C B. init = encodes I \<Longrightarrow> step = encodes S \<Longrightarrow> cond = encodes C
        \<Longrightarrow> loopBody = encodes B \<Longrightarrow>
        code = encodes (forInstrs (func R st') (localVarsIndex st4 + 1) (localVarsIndex st4)
                 loopVar I S C B)"
  from compileAssign_coded [OF a wfScopes_enterScope [OF wf]]
  have 1: "coded (localVarsIndex st1) init" "wfScopes st1" by auto
  from getVar_below [OF g 1(2)] have lv: "loopVar < localVarsIndex st1" .
  from compileExpression_coded [OF c wfScopes_enterScope [OF 1(2)]]
  have 2: "coded (localVarsIndex st2) cond" "scopes st2 = scopes (enterScope st1)"
    "localVarsIndex st1 \<le> localVarsIndex st2" by auto
  from wfScopes_same [OF wfScopes_enterScope [OF 1(2)] 2(2)] 2(3) have w2: "wfScopes st2" by simp
  have 3: "\<exists>S. step = encodes S \<and> list_all (below (localVarsIndex st3)) S \<and> wfScopes st3
      \<and> localVarsIndex st2 \<le> localVarsIndex st3
      \<and> (case increment of
          Some inc \<Rightarrow> compileExpression R inc st2 = Inr (encodes S, st3)
        | None \<Rightarrow> S = [F64Const f64_one, Call (func R st2 ''box_number'')] \<and> st3 = st2)"
  proof (cases increment)
    case None
    with s w2 show ?thesis
      by (auto simp: opcode_defs intro!: exI [of _ "[F64Const f64_one, Call (func R st2 ''box_number'')]"])
  next
    case (Some inc)
    with s have i: "compileExpression R inc st2 = Inr (step, st3)" by simp
    from compileExpression_coded [OF i w2] wfScopes_same [OF w2] i Some show ?thesis
      by (auto elim!: codedE)
  qed
  then obtain S where S: "step = encodes S" "list_all (below (localVarsIndex st3)) S" "wfScopes st3"
    "localVarsIndex st2 \<le> localVarsIndex st3"
    "(case increment of
          Some inc \<Rightarrow> compileExpression R inc st2 = Inr (encodes S, st3)
        | None \<Rightarrow> S = [F64Const f64_one, Call (func R st2 ''box_number'')] \<and> st3 = st2)"
    by blast
  from compileStatements_coded [OF b S(3)]
  have 4: "coded (localVarsIndex st4) loopBody" "localVarsIndex st3 \<le> localVarsIndex st4"
    by auto
  let ?n = "localVarsIndex st4"
  from 1 2 4 S(4) have "coded ?n init" "coded ?n cond" by (auto intro: coded_mono)
  with 4 obtain I C B where
    I: "init = encodes I" "list_all (below ?n) I" and
    C: "cond = encodes C" "list_all (below ?n) C" and
    B: "loopBody = encodes B" "list_all (below ?n) B"
    by (auto elim!: codedE)
  from S(2) 4(2) have S': "list_all (below ?n) S" by (rule below_all_mono)
  from lv 2 4 S(4) have lv': "loopVar < ?n" by simp
  have a': "compileAssign R isLocal idn e (enterScope st) = Inr (encodes I, st1)"
    using a I(1) by simp
  have c': "compileExpression R condition (enterScope st1) = Inr (encodes C, st2)"
    using c C(1) by simp
  have b': "compileStatements R stmts st3 = Inr (encodes B, st4)"
    using b B(1) by simp
  have bl: "list_all (below ?n) (I @ S @ C @ B)"
    using I(2) S' C(2) B(2) by simp
  note code' = code [OF I(1) S(1) C(1) B(1), unfolded forInstrs_def guardInstrs_def]
  show ?thesis
    apply (rule exI [of _ st1], rule exI [of _ loopVar], rule exI [of _ st2], rule exI [of _ st3])
    apply (rule exI [of _ st4], rule exI [of _ I], rule exI [of _ S], rule exI [of _ C])
    apply (rule exI [of _ B], rule exI [of _ ?n], rule exI [of _ "?n + 1"])
    apply (rule exI [of _ "func R st' ''unbox_number''"])
    apply (intro conjI)
              apply (rule a')
             apply (rule g)
            apply (rule c')
           apply (rule S(5))
          apply (rule b')
         apply (rule refl)
        apply (rule refl)
       apply (rule bl)
      apply (rule lv')
     apply (rule refl)
    apply (rule code')
    done
qed

theorem for_loop_direction_witness:
  "\<exists>code st' st2 INIT STEP COND B isDescending counter loopVar unbox.
      compileStatement exampleRuntime forExample exampleState = Inr (code, st')
    \<and> STEP = [F64Const f64_one, Call (func exampleRuntime st2 ''box_number'')]
    \<and> list_all (below isDescending) (INIT @ STEP @ COND @ B)
    \<and> loopVar < isDescending
    \<and> code = encodes
        ([I32Const 0, LocalSet counter]
         @ INIT
         @ STEP @ [Call unbox, F64Const 0, Plain 0x63, LocalSet isDescending,
          Block blockType_none
            [Loop blockType_none
               ([LocalGet counter, I32Const MAX_ITERATIONS, Plain 0x4F,
                 If blockType_none [Plain 0x00] None,
                 LocalGet counter, I32Const 1, Plain 0x6A, LocalSet counter]
                @ [LocalGet isDescending,
                   If valType_i32
                     ([LocalGet loopVar, Call unbox] @ COND @ [Call unbox, Plain 0x63])
                     (Some ([LocalGet loopVar, Call unbox] @ COND @ [Call unbox, Plain 0x64])),
                   BrIf 1]
                @ B
                @ [LocalGet loopVar, Call unbox] @ STEP
                @ [Call unbox, Plain 0xA0, Call (func exampleRuntime st' ''box_number''),
                   LocalSet loopVar, Br 0])]])"
proof -
  have "case compileStatement exampleRuntime forExample exampleState of
      Inr x \<Rightarrow> True | Inl e \<Rightarrow> False"
    by code_simp
  then obtain code st' where
    ok: "compileStatement exampleRuntime forExample exampleState = Inr (code, st')"
    by (auto dest: result_cases)
  from for_loop_direction [OF ok [unfolded forExample_def] wfScopes_exampleState] ok
  show ?thesis by (simp del: encodes.simps encodes_append) blast
qed


text \<open>
  Claim C7: for every \<open>if\<close> statement the \<open>elif\<close> branches are nested so that each one
  is an \<open>if\<close> in the else arm of the branch before it (the first in the else arm of the
  \<open>if\<close> itself), and the else block is the else arm of the last branch; the body of
  every branch is compiled in a new scope: it is compiled in the state that the code
  before it has left, with an empty scope pushed, and the scope is popped before
  anything else is compiled.  The states are those of the compilation itself: the then
  branch follows the condition, the else block the then branch, the last \<open>elif\<close> the else
  block, each \<open>elif\<close> the one after it, and the first \<open>elif\<close> leaves the state of the
  statement.
\<close>

theorem if_elif_chain:
  assumes c: "compileStatement R (IfStatement cnd thenStmts elifBranches elseStmts) st = Inr (code, st')"
    and wf: "wfScopes st"
  shows "\<exists>st1 st2 st5 C T E branches.
      compileExpression R cnd st = Inr (encodes C, st1)
    \<and> compileStatements R thenStmts (enterScope st1) = Inr (encodes T, st2)
    \<and> (case elseStmts of
          None \<Rightarrow> E = [] \<and> st5 = exitScope st2
        | Some stmts \<Rightarrow> (\<exists>st4.
            compileStatements R stmts (enterScope (exitScope st2)) = Inr (encodes E, st4)
            \<and> st5 = exitScope st4))
    \<and> elifChain R elifBranches branches st5 st'
    \<and> code = encodes (C @ [Call (func R (exitScope st2) ''is_truthy''),
                 If blockType_none T (Some (chainInstrs branches E))])"
proof -
  from c obtain condition st1 thenBranch st2 elseBlock st5 chain where
    cc: "compileExpression R cnd st = Inr (condition, st1)" and
    t: "compileStatements R thenStmts (enterScope st1) = Inr (thenBranch, st2)" and
    e: "(case elseStmts of
        None \<Rightarrow> Inr ([], exitScope st2)
      | Some stmts \<Rightarrow>
          bind (compileStatements R stmts (enterScope (exitScope st2))) (\<lambda>(elseBlock, st4).
            Inr (elseBlock, exitScope st4))) = Inr (elseBlock, st5)" and
    el: "compileElifs R elifBranches elseBlock st5 = Inr (chain, st')" and
    code: "code = condition @ fn_call (func R (exitScope st2) ''is_truthy'') @ if_start blockType_none
       @ thenBranch @ if_else @ chain @ if_end"
    by (rule compileStatement_If_parts)
  from compileExpression_coded [OF cc wf] obtain C where C: "condition = encodes C"
    and s1: "scopes st1 = scopes st" "localVarsIndex st \<le> localVarsIndex st1"
    by (auto elim!: codedE)
  from compileStatements_coded [OF t wfScopes_enterScope [OF wfScopes_same [OF wf s1]]]
  obtain T where T: "thenBranch = encodes T" and w2: "wfScopes st2" by (auto elim!: codedE)
  have "\<exists>E. elseBlock = encodes E \<and> list_all (below (localVarsIndex st5)) E \<and> wfScopes st5
      \<and> (case elseStmts of
          None \<Rightarrow> E = [] \<and> st5 = exitScope st2
        | Some stmts \<Rightarrow> (\<exists>st4.
            compileStatements R stmts (enterScope (exitScope st2)) = Inr (encodes E, st4)
            \<and> st5 = exitScope st4))"
  proof (cases elseStmts)
    case None
    with e w2 show ?thesis by (auto intro!: exI [of _ "[]"] wfScopes_exitScope)
  next
    case (Some stmts)
    with e obtain st4 where
      s: "compileStatements R stmts (enterScope (exitScope st2)) = Inr (elseBlock, st4)"
      and st5: "st5 = exitScope st4"
      by (auto simp: bind_eq_Inr)
    from compileStatements_coded [OF s wfScopes_enterScope [OF wfScopes_exitScope [OF w2]]]
    obtain E where "elseBlock = encodes E" "list_all (below (localVarsIndex st4)) E" "wfScopes st4"
      by (auto elim!: codedE)
    with s Some show ?thesis unfolding st5 by (auto intro: wfScopes_exitScope)
  qed
  then obtain E where E: "elseBlock = encodes E" "list_all (below (localVarsIndex st5)) E"
    "wfScopes st5" "(case elseStmts of
          None \<Rightarrow> E = [] \<and> st5 = exitScope st2
        | Some stmts \<Rightarrow> (\<exists>st4.
            compileStatements R stmts (enterScope (exitScope st2)) = Inr (encodes E, st4)
            \<and> st5 = exitScope st4))"
    by blast
  from compileElifs_chain [OF el [unfolded E(1)] E(3,2)] obtain branches where
    br: "chain = encodes (chainInstrs branches E)" "elifChain R elifBranches branches st5 st'"
    by blast
  have "code = encodes (C @ [Call (func R (exitScope st2) ''is_truthy''),
                 If blockType_none T (Some (chainInstrs branches E))])"
    unfolding code C T br(1) by (simp add: opcode_defs)
  with cc t C T E(4) br(2) show ?thesis by blast
qed

theorem if_elif_chain_witness:
  "\<exists>code st' st1 st2 st4 C T E t C' B' s2 s3.
      compileStatement exampleRuntime ifExample exampleState = Inr (code, st')
    \<and> compileExpression exampleRuntime (BooleanLiteral True) exampleState = Inr (encodes C, st1)
    \<and> compileStatements exampleRuntime [PrintStatement (NumberLiteral 0)] (enterScope st1)
        = Inr (encodes T, st2)
    \<and> compileStatements exampleRuntime [PrintStatement (StringLiteral ''no'')]
          (enterScope (exitScope st2)) = Inr (encodes E, st4)
    \<and> compileExpression exampleRuntime (BooleanLiteral False) (exitScope st4) = Inr (encodes C', s2)
    \<and> compileStatements exampleRuntime [PrintStatement (NumberLiteral f64_one)] (enterScope s2)
        = Inr (encodes B', s3)
    \<and> st' = exitScope s3
    \<and> code = encodes (C @ [Call (func exampleRuntime (exitScope st2) ''is_truthy''),
                 If blockType_none T (Some (chainInstrs [(t, C', B')] E))])"
proof -
  have "case compileStatement exampleRuntime ifExample exampleState of
      Inr x \<Rightarrow> True | Inl e \<Rightarrow> False"
    by code_simp
  then obtain code st' where
    ok: "compileStatement exampleRuntime ifExample exampleState = Inr (code, st')"
    by (auto dest: result_cases)
  from if_elif_chain [OF ok [unfolded ifExample_def] wfScopes_exampleState]
  obtain st1 st2 st5 C T E branches where
    1: "compileExpression exampleRuntime (BooleanLiteral True) exampleState = Inr (encodes C, st1)"
      "compileStatements exampleRuntime [PrintStatement (NumberLiteral 0)] (enterScope st1)
        = Inr (encodes T, st2)"
      "\<exists>st4. compileStatements exampleRuntime [PrintStatement (StringLiteral ''no'')]
          (enterScope (exitScope st2)) = Inr (encodes E, st4) \<and> st5 = exitScope st4"
      "elifChain exampleRuntime [(BooleanLiteral False, [PrintStatement (NumberLiteral f64_one)])]
         branches st5 st'"
      "code = encodes (C @ [Call (func exampleRuntime (exitScope st2) ''is_truthy''),
                 If blockType_none T (Some (chainInstrs branches E))])"
    by auto
  from 1(3) obtain st4 where
    4: "compileStatements exampleRuntime [PrintStatement (StringLiteral ''no'')]
          (enterScope (exitScope st2)) = Inr (encodes E, st4)" "st5 = exitScope st4"
    by blast
  have "\<exists>t C' B'. branches = [(t, C', B')]"
  proof (cases branches)
    case Nil
    with 1(4) show ?thesis by simp
  next
    case (Cons y ys)
    with 1(4) show ?thesis by (cases y; cases ys) auto
  qed
  then obtain t C' B' where b: "branches = [(t, C', B')]" by blast
  from 1(4) [unfolded b] 4(2) obtain s2 s3 where
    5: "compileExpression exampleRuntime (BooleanLiteral False) (exitScope st4) = Inr (encodes C', s2)"
      "compileStatements exampleRuntime [PrintStatement (NumberLiteral f64_one)] (enterScope s2)
        = Inr (encodes B', s3)" "st' = exitScope s3"
    by auto
  from ok 1(1,2) 4(1) 5 1(5) [unfolded b] show ?thesis by blast
qed


text \<open>What a function declaration does: it emits no code in its place and registers, under
  the name of the function, the local declarations, the compiled statements of the body,
  then \<open>call box_nil\<close>, \<open>return\<close> (0x0F) and \<open>end\<close> (0x0B).\<close>

lemma function_body_registered:
  assumes "compileStatement R (FunctionDeclStatement name ps stmts) st = Inr (code, st')"
  shows "code = [] \<and> (\<exists>B st3.
      compileStatements R stmts (functionEntry name ps st) = Inr (encodes B, st3)
    \<and> map_of (functionBodies st') (id_name name)
        = Some (getLocalDecls R st3
                 @ encodes (B @ [Call (func R st3 ''box_nil''), Plain 0x0F])
                 @ [0x0B]))"
proof -
  from assms obtain body st3 where
    b: "compileStatements R stmts (functionEntry name ps st) = Inr (body, st3)" and
    code: "code = []" and
    st': "st' = addFunctionBody (id_name name)
       (getLocalDecls R st3 @ (body @ fn_call (func R st3 ''box_nil'') @ fn_return) @ control_end)
       (setScopes (scopes st) (setLocalVarsIndex (localVarsIndex st) st3))"
    unfolding functionEntry_def by (rule compileStatement_FunctionDecl_parts)
  from compileStatements_coded [OF b wfScopes_functionEntry] obtain B where B: "body = encodes B"
    by (auto elim!: codedE)
  have "map_of (functionBodies st') (id_name name)
        = Some (getLocalDecls R st3
                 @ encodes (B @ [Call (func R st3 ''box_nil''), Plain 0x0F])
                 @ [0x0B])"
    unfolding st' B by (simp add: addFunctionBody_def map_of_setBody opcode_defs)
  with b B code show ?thesis by blast
qed

lemma function_body_registered_example:
  "\<exists>code st' B st3.
      compileStatement exampleRuntime funcExample exampleState = Inr (code, st')
    \<and> code = []
    \<and> map_of (functionBodies st') ''f''
        = Some (getLocalDecls exampleRuntime st3
                 @ encodes (B @ [Call (func exampleRuntime st3 ''box_nil''), Plain 0x0F])
                 @ [0x0B])"
proof -
  have "case compileStatement exampleRuntime funcExample exampleState of
      Inr x \<Rightarrow> True | Inl e \<Rightarrow> False"
    by code_simp
  then obtain code st' where
    ok: "compileStatement exampleRuntime funcExample exampleState = Inr (code, st')"
    by (auto dest: result_cases)
  from function_body_registered [OF ok [unfolded funcExample_def]] ok
  show ?thesis by (auto simp: ident_def simp del: encodes.simps encodes_append)
qed

text \<open>
  Claim C8: for every user-defined function declaration the emitted function body is the
  compiled statements of the body followed by \<open>call box_nil\<close>, \<open>return\<close> and \<open>end\<close>, so
  that a function whose body falls through returns a boxed nil.

  This fails for a function that is declared under the name \<open>main\<close>.  The declaration
  registers the body above under the key \<open>main\<close>; \<open>_compile\<close> then stores the body of the
  program under the same key, and the code section takes the body of every function by
  its name.  For \<^verbatim>\<open>func main() print 1 end\<close> the compilation succeeds, and the body
  emitted for the user function is \<open>00 0B\<close>: no local, no statement, no call of \<open>box_nil\<close>
  and no \<open>return\<close>.  The check for a name that is already taken looks at the user
  functions only.
\<close>

theorem user_function_main_loses_its_body:
  "(case compileStatement exampleRuntime mainDecl exampleState of
      Inr (code, st) \<Rightarrow>
        code = []
        \<and> map_of (functionBodies st) ''main''
            = Some ([0x00] @ f64_const f64_one
                     @ fn_call (func exampleRuntime st ''box_number'')
                     @ fn_call (func exampleRuntime st ''print'')
                     @ fn_call (func exampleRuntime st ''box_nil'') @ fn_return @ control_end)
    | Inl e \<Rightarrow> False)
   \<and> (case tryBlock exampleRuntime emptyState (program [mainDecl]) [] of
        Inr (bs, st) \<Rightarrow>
          map fd_name (userDefinedFunctions st) = [''main'']
          \<and> map_of (functionBodies st) ''main'' = Some [0x00, 0x0B]
          \<and> codeEntries st (userDefinedFunctions st) = Inr [0x02, 0x00, 0x0B]
          \<and> (case sections (drop 8 bs) of
                Some secs \<Rightarrow>
                  map_of secs 10
                    = Some ([15] @ concat (replicate 14 [0x03, 0x00, 0x00, 0x0B])
                            @ [0x02, 0x00, 0x0B] @ [0x02, 0x00, 0x0B])
              | None \<Rightarrow> False)
      | Inl e \<Rightarrow> False)"
  by code_simp

subsection \<open>The iteration cap of the loops\<close>

text \<open>With a probe at the start of the body, the tree of either loop is a loop statement
  in the sense of \<open>exec_loop_statement\<close>: the counter is set to 0, code that does not touch
  the counter follows, then the block with the guarded loop.\<close>

lemma whileInstrs_probed:
  "whileInstrs f k C (Probe # B) =
     [I32Const 0, LocalSet k] @ [] @
     [Block blockType_none [Loop blockType_none
        (cappedBody k (C @ [Call (f ''is_truthy''), Plain 0x45, BrIf 1]) (B @ [Br 0]))]]"
  by (simp add: whileInstrs_def cappedBody_def)

lemma forInstrs_probed:
  "forInstrs f k d v INIT STEP COND (Probe # B) =
     [I32Const 0, LocalSet k]
     @ (INIT @ STEP @ [Call (f ''unbox_number''), F64Const 0, Plain 0x63, LocalSet d]) @
     [Block blockType_none [Loop blockType_none
        (cappedBody k
           [LocalGet d,
            If valType_i32
              ([LocalGet v, Call (f ''unbox_number'')] @ COND @ [Call (f ''unbox_number''), Plain 0x63])
              (Some ([LocalGet v, Call (f ''unbox_number'')] @ COND
                 @ [Call (f ''unbox_number''), Plain 0x64])),
            BrIf 1]
           (B @ [LocalGet v, Call (f ''unbox_number'')] @ STEP
              @ [Call (f ''unbox_number''), Plain 0xA0, Call (f ''box_number''),
                 LocalSet v, Br 0]))]]"
  by (simp add: forInstrs_def cappedBody_def)

lemma while_bound:
  assumes "list_all (below k) C" "list_all (below k) B"
  shows "probes (config_of (exec n E (whileInstrs f k C (Probe # B)) c))
    \<le> probes c + nat MAX_ITERATIONS"
proof -
  have "probes (config_of (exec n E (whileInstrs f k C (Probe # B)) c)) \<le> probes c + 10000"
    unfolding whileInstrs_probed using assms by (intro exec_loop_statement) simp_all
  then show ?thesis by (simp add: MAX_ITERATIONS_def)
qed

lemma for_bound:
  assumes "list_all (below d) INIT" "list_all (below d) STEP" "list_all (below d) COND"
    "list_all (below d) B" "v < d"
  shows "probes (config_of (exec n E (forInstrs f (Suc d) d v INIT STEP COND (Probe # B)) c))
    \<le> probes c + nat MAX_ITERATIONS"
proof -
  from assms have b: "list_all (below (Suc d)) INIT" "list_all (below (Suc d)) STEP"
    "list_all (below (Suc d)) COND" "list_all (below (Suc d)) B"
    by (auto intro: below_all_mono)
  have "probes (config_of (exec n E (forInstrs f (Suc d) d v INIT STEP COND (Probe # B)) c))
    \<le> probes c + 10000"
    unfolding forInstrs_probed using b assms(5) by (intro exec_loop_statement) simp_all
  then show ?thesis by (simp add: MAX_ITERATIONS_def)
qed

lemma guard_traps:
  "locals c k = I32 (word_of_int MAX_ITERATIONS)
    \<Longrightarrow> exec (Suc (Suc n)) E (guardInstrs k @ rest) c = Trapped c"
  by (simp add: exec_guard_start)

text \<open>The parts of a compiled loop as trees that do not touch the counter; the tree of
  the body can be replaced by any tree with the same bytes.\<close>

lemma compileStatement_While_trees:
  assumes c: "compileStatement R (WhileStatement cond stmts) st = Inr (code, st')"
    and wf: "wfScopes st"
  obtains st1 st2 C B where
    "compileStatements R stmts (enterScope (enterScope st)) = Inr (encodes B, st1)"
    "compileExpression R cond (exitScope st1) = Inr (encodes C, st2)"
    "localVarsIndex st \<le> localVarsIndex st2"
    "list_all (below (localVarsIndex st2)) C" "list_all (below (localVarsIndex st2)) B"
    "\<And>B'. encodes B' = encodes B
       \<Longrightarrow> code = encodes (whileInstrs (func R st') (localVarsIndex st2) C B')"
  using c
proof (rule compileStatement_While_parts)
  fix body st1 condition st2
  assume b: "compileStatements R stmts (enterScope (enterScope st)) = Inr (body, st1)" and
    c: "compileExpression R cond (exitScope st1) = Inr (condition, st2)" and
    code: "\<And>C B. condition = encodes C \<Longrightarrow> body = encodes B \<Longrightarrow>
        code = encodes (whileInstrs (func R st') (localVarsIndex st2) C B)"
  from compileStatements_coded [OF b wfScopes_enterScope [OF wfScopes_enterScope [OF wf]]]
  have 1: "coded (localVarsIndex st1) body" "wfScopes st1" "localVarsIndex st \<le> localVarsIndex st1"
    by auto
  from compileExpression_coded [OF c wfScopes_exitScope [OF 1(2)]]
  have 2: "coded (localVarsIndex st2) condition" "localVarsIndex st1 \<le> localVarsIndex st2" by auto
  from 1(1) 2(2) have "coded (localVarsIndex st2) body" by (rule coded_mono)
  with 2(1) obtain C B where
    C: "condition = encodes C" "list_all (below (localVarsIndex st2)) C" and
    B: "body = encodes B" "list_all (below (localVarsIndex st2)) B"
    by (auto elim!: codedE)
  show thesis
  proof (rule that [of B st1 C st2])
    show "compileStatements R stmts (enterScope (enterScope st)) = Inr (encodes B, st1)"
      using b B(1) by simp
    show "compileExpression R cond (exitScope st1) = Inr (encodes C, st2)"
      using c C(1) by simp
    show "localVarsIndex st \<le> localVarsIndex st2" using 1(3) 2(2) by simp
    show "list_all (below (localVarsIndex st2)) C" by (rule C(2))
    show "list_all (below (localVarsIndex st2)) B" by (rule B(2))
    show "code = encodes (whileInstrs (func R st') (localVarsIndex st2) C B')"
      if "encodes B' = encodes B" for B'
      using that B(1) by (intro code [OF C(1)]) simp
  qed
qed

lemma compileStatement_For_trees:
  assumes c: "compileStatement R (ForStatement isLocal idn e condition increment stmts) st
      = Inr (code, st')"
    and wf: "wfScopes st"
  obtains st1 loopVar st2 st3 st4 INIT STEP COND B where
    "compileAssign R isLocal idn e (enterScope st) = Inr (encodes INIT, st1)"
    "getVar (id_name idn) st1 = Some loopVar"
    "compileExpression R condition (enterScope st1) = Inr (encodes COND, st2)"
    "(case increment of
        Some inc \<Rightarrow> compileExpression R inc st2
      | None \<Rightarrow> Inr (f64_const f64_one @ fn_call (func R st2 ''box_number''), st2))
      = Inr (encodes STEP, st3)"
    "compileStatements R stmts st3 = Inr (encodes B, st4)"
    "localVarsIndex st \<le> localVarsIndex st4"
    "list_all (below (localVarsIndex st4)) INIT" "list_all (below (localVarsIndex st4)) STEP"
    "list_all (below (localVarsIndex st4)) COND" "list_all (below (localVarsIndex st4)) B"
    "loopVar < localVarsIndex st4"
    "\<And>B'. encodes B' = encodes B
       \<Longrightarrow> code = encodes (forInstrs (func R st') (localVarsIndex st4 + 1) (localVarsIndex st4)
                 loopVar INIT STEP COND B')"
  using c
proof (rule compileStatement_For_parts)
  fix init st1 loopVar cond st2 step st3 loopBody st4
  assume a: "compileAssign R isLocal idn e (enterScope st) = Inr (init, st1)" and
    g: "getVar (id_name idn) st1 = Some loopVar" and
    c: "compileExpression R condition (enterScope st1) = Inr (cond, st2)" and
    s: "(case increment of
        Some inc \<Rightarrow> compileExpression R inc st2
      | None \<Rightarrow> Inr (f64_const f64_one @ fn_call (func R st2 ''box_number''), st2)) = Inr (step, st3)" and
    b: "compileStatements R stmts st3 = Inr (loopBody, st4)" and
    code: "\<And>I S C B. init = encodes I \<Longrightarrow> step = encodes S \<Longrightarrow> cond = encodes C
        \<Longrightarrow> loopBody = encodes B \<Longrightarrow>
        code = encodes (forInstrs (func R st') (localVarsIndex st4 + 1) (localVarsIndex st4)
                 loopVar I S C B)"
  from compileAssign_coded [OF a wfScopes_enterScope [OF wf]]
  have 1: "coded (localVarsIndex st1) init" "wfScopes st1" "localVarsIndex st \<le> localVarsIndex st1"
    by auto
  from getVar_below [OF g 1(2)] have lv: "loopVar < localVarsIndex st1" .
  from compileExpression_coded [OF c wfScopes_enterScope [OF 1(2)]]
  have 2: "coded (localVarsIndex st2) cond" "scopes st2 = scopes (enterScope st1)"
    "localVarsIndex st1 \<le> localVarsIndex st2" by auto
  from wfScopes_same [OF wfScopes_enterScope [OF 1(2)] 2(2)] 2(3) have w2: "wfScopes st2" by simp
  have 3: "coded (localVarsIndex st3) step \<and> wfScopes st3 \<and> localVarsIndex st2 \<le> localVarsIndex st3"
  proof (cases increment)
    case None
    with s w2 show ?thesis by (auto intro!: coded_append)
  next
    case (Some inc)
    with s have i: "compileExpression R inc st2 = Inr (step, st3)" by simp
    from compileExpression_coded [OF i w2] wfScopes_same [OF w2] show ?thesis by auto
  qed
  from compileStatements_coded [OF b] 3
  have 4: "coded (localVarsIndex st4) loopBody" "localVarsIndex st3 \<le> localVarsIndex st4"
    by auto
  let ?n = "localVarsIndex st4"
  from 1 2 3 4 have "coded ?n init" "coded ?n cond" "coded ?n step" "coded ?n loopBody"
    by (auto intro: coded_mono)
  then obtain I S C B where
    I: "init = encodes I" "list_all (below ?n) I" and
    S: "step = encodes S" "list_all (below ?n) S" and
    C: "cond = encodes C" "list_all (below ?n) C" and
    B: "loopBody = encodes B" "list_all (below ?n) B"
    by (auto elim!: codedE)
  show thesis
  proof (rule that [of I st1 loopVar C st2 S st3 B st4])
    show "compileAssign R isLocal idn e (enterScope st) = Inr (encodes I, st1)"
      using a I(1) by simp
    show "getVar (id_name idn) st1 = Some loopVar" by (rule g)
    show "compileExpression R condition (enterScope st1) = Inr (encodes C, st2)"
      using c C(1) by simp
    show "(case increment of
        Some inc \<Rightarrow> compileExpression R inc st2
      | None \<Rightarrow> Inr (f64_const f64_one @ fn_call (func R st2 ''box_number''), st2))
      = Inr (encodes S, st3)"
      using s S(1) by simp
    show "compileStatements R stmts st3 = Inr (encodes B, st4)"
      using b B(1) by simp
    show "localVarsIndex st \<le> ?n" using 1 2 3 4 by simp
    show "list_all (below ?n) I" "list_all (below ?n) S" "list_all (below ?n) C"
      "list_all (below ?n) B" by (rule I(2) S(2) C(2) B(2))+
    show "loopVar < ?n" using lv 2 3 4 by simp
    show "code = encodes (forInstrs (func R st') (?n + 1) ?n loopVar I S C B')"
      if "encodes B' = encodes B" for B'
      using that B(1) by (intro code [OF I(1) S(1) C(1)]) simp
  qed
qed

text \<open>The run of \<open>nestedLoops\<close>: the inner loop is entered once in each iteration of
  the outer loop and its body runs twice each time.\<close>

lemma nestedLoops_code:
  "case compileStatements exampleRuntime nestedLoops exampleState of
     Inr (code, st') \<Rightarrow> code = encodes nestedTree | Inl e \<Rightarrow> False"
  by code_simp

lemma nestedLoops_module:
  "case tryBlock exampleRuntime emptyState (program nestedLoops) [] of
     Inr (bs, st) \<Rightarrow>
       map_of (functionBodies st) ''main''
         = Some (getLocalDecls exampleRuntime st @ encodes nestedTree @ [0x0B])
   | Inl e \<Rightarrow> False"
  by code_simp

lemma func_box_bool: "func exampleRuntime exampleState ''box_bool'' = 3"
  by code_simp

lemma func_is_truthy: "func exampleRuntime exampleState ''is_truthy'' = 11"
  by code_simp

lemma callee_is_truthy:
  "callee exampleEnv 11 (I32 p # s) g = Returns (bool32 (is_truthy p g) # s) g"
  by (simp add: exampleEnv_def func_box_bool func_is_truthy)

lemma truthy_1: "is_truthy 1 exampleHeap"
  by (simp add: is_truthy_def exampleHeap_def)

lemma truthy_3: "\<not> is_truthy 3 exampleHeap"
  by (simp add: is_truthy_def exampleHeap_def)

lemma cap_above_1: "\<not> (10000 :: 32 word) \<le> 1"
  by (simp add: word_le_nat_alt)

lemma exec_innerLoop:
  assumes "locals c 2 = I32 1" "locals c 3 = I32 1" "locals c 1 = I32 3" "store c = exampleHeap"
  shows "\<exists>c'. exec (Suc (Suc (Suc (Suc (Suc (Suc n)))))) exampleEnv innerLoop c = Normal c'
     \<and> probes c' = probes c + 2 \<and> store c' = store c
     \<and> locals c' 0 = locals c 0 \<and> locals c' 1 = locals c 1 \<and> locals c' 5 = locals c 5"
  using assms
  by (simp add: innerLoop_def whileInstrs_def guardInstrs_def func_is_truthy callee_is_truthy
      truthy_1 truthy_3 plain_def bool32_def arity_def MAX_ITERATIONS_def cap_above_1)

lemma exec_outerBody:
  assumes "running i c" "i < 10000"
  shows "\<exists>c'. exec (Suc (Suc (Suc (Suc (Suc (Suc (Suc (Suc n))))))))
        exampleEnv (guardInstrs 5 @ [LocalGet 0, Call 11, Plain 0x45, BrIf 1] @ outerBody @ [Br 0]) c
       = Breaking 0 c'
     \<and> running (Suc i) c' \<and> probes c' = probes c + 2"
proof -
  let ?n = "Suc (Suc (Suc (Suc (Suc (Suc n)))))"
  let ?c1 = "c\<lparr>stack := stack c, locals := (locals c)(5 := I32 (of_nat i + 1))\<rparr>"
  let ?c2 = "?c1\<lparr>store := exampleHeap, locals := (locals ?c1)(2 := I32 1, 3 := I32 1)\<rparr>"
  have "locals ?c2 2 = I32 1" "locals ?c2 3 = I32 1" "locals ?c2 1 = I32 3" "store ?c2 = exampleHeap"
    using assms(1) by (simp_all add: running_def)
  from exec_innerLoop [OF this, of "Suc (Suc n)"] obtain c' where
    c': "exec (Suc (Suc ?n)) exampleEnv innerLoop ?c2 = Normal c'"
      "probes c' = probes ?c2 + 2" "store c' = store ?c2"
      "locals c' 0 = locals ?c2 0" "locals c' 1 = locals ?c2 1" "locals c' 5 = locals ?c2 5"
    by blast
  have "exec (Suc (Suc ?n)) exampleEnv
      (guardInstrs 5 @ [LocalGet 0, Call 11, Plain 0x45, BrIf 1] @ outerBody @ [Br 0]) c = Breaking 0 c'"
    using assms cap_reached [of i] c'(1)
    by (simp add: outerBody_def exec_guard_start exec_append [of _ _ innerLoop "[Br 0]"] running_def
        callee_is_truthy truthy_1 plain_def bool32_def)
  with c' assms show ?thesis by (auto simp: running_def)
qed

lemma exec1_Loop_again:
  "exec k E body c = Breaking 0 c'
    \<Longrightarrow> exec1 (Suc k) E (Loop bt body) c = exec1 k E (Loop bt body) (c'\<lparr>stack := stack c\<rparr>)"
  by simp

lemma exec1_outerLoop_trap:
  assumes "running 10000 c"
  shows "exec1 (Suc (Suc (Suc k))) exampleEnv
      (Loop blockType_none
         (guardInstrs 5 @ [LocalGet 0, Call 11, Plain 0x45, BrIf 1] @ outerBody @ [Br 0])) c
     = Trapped c"
  using assms by (simp add: exec_guard_start running_def MAX_ITERATIONS_def)

lemma exec1_outerLoop:
  assumes "running i c" "i \<le> 10000"
  shows "\<exists>c'. exec1 ((10000 - i) + 10 + n) exampleEnv
        (Loop blockType_none
          (guardInstrs 5 @ [LocalGet 0, Call 11, Plain 0x45, BrIf 1] @ outerBody @ [Br 0])) c
       = Trapped c' \<and> probes c' = probes c + 2 * (10000 - i)"
  using assms
proof (induction "10000 - i" arbitrary: i c)
  case 0
  then have i: "i = 10000" by simp
  have fuel: "10000 - i + 10 + n = Suc (Suc (Suc (7 + n)))" using i by simp
  from exec1_outerLoop_trap [of c "7 + n"] "0.prems"(1) show ?case
    unfolding fuel by (simp add: i)
next
  case (Suc m)
  let ?L = "Loop blockType_none
          (guardInstrs 5 @ [LocalGet 0, Call 11, Plain 0x45, BrIf 1] @ outerBody @ [Br 0])"
  let ?k = "Suc (Suc (Suc (Suc (Suc (Suc (Suc (Suc (m + 2 + n))))))))"
  from Suc have i: "i < 10000" and m: "m = 10000 - Suc i" by simp_all
  have fuel: "10000 - i + 10 + n = Suc ?k"
    using Suc(2) by simp
  have eq: "10000 - Suc i + 10 + n = ?k"
    using m by simp
  from exec_outerBody [OF Suc.prems(1) i, of "m + 2 + n"] obtain c' where
    c': "exec ?k exampleEnv
        (guardInstrs 5 @ [LocalGet 0, Call 11, Plain 0x45, BrIf 1] @ outerBody @ [Br 0]) c
       = Breaking 0 c'" "running (Suc i) c'" "probes c' = probes c + 2"
    by blast
  from c'(2) have r: "running (Suc i) (c'\<lparr>stack := stack c\<rparr>)" by (simp add: running_def)
  from Suc.hyps(1) [OF m r] i obtain c'' where
    c'': "exec1 (10000 - Suc i + 10 + n) exampleEnv ?L (c'\<lparr>stack := stack c\<rparr>) = Trapped c''"
      "probes c'' = probes (c'\<lparr>stack := stack c\<rparr>) + 2 * (10000 - Suc i)"
    by auto
  have "exec1 (Suc ?k) exampleEnv ?L c = exec1 ?k exampleEnv ?L (c'\<lparr>stack := stack c\<rparr>)"
    by (rule exec1_Loop_again [OF c'(1)])
  also have "\<dots> = Trapped c''" using c''(1) unfolding eq .
  finally have "exec1 (10000 - i + 10 + n) exampleEnv ?L c = Trapped c''"
    unfolding fuel .
  moreover have "probes c'' = probes c + 2 * (10000 - i)"
    using c''(2) c'(3) i by simp
  ultimately show ?case by blast
qed

lemma running_enteredConfig: "running 0 enteredConfig"
  by (simp add: running_def enteredConfig_def)

lemma callee_box_bool:
  "callee exampleEnv 3 (I32 v # s) g = Returns (I32 (fst (box_bool v g)) # s) (snd (box_bool v g))"
  by (simp add: exampleEnv_def func_box_bool split: prod.splits)

lemma exec_nestedTree_start:
  assumes "exec1 k exampleEnv
      (Loop blockType_none
         (guardInstrs 5 @ [LocalGet 0, Call 11, Plain 0x45, BrIf 1] @ outerBody @ [Br 0]))
      enteredConfig = Trapped c'"
  shows "exec (Suc k) exampleEnv nestedTree initialConfig = Trapped c'"
  using assms
  by (simp add: nestedTree_def whileInstrs_def initialConfig_def enteredConfig_def exampleHeap_def
      callee_box_bool func_box_bool func_is_truthy box_bool_def arity_def)


text \<open>
  Claim C3: for every \<open>while\<close> statement and every numeric \<open>for\<close> statement the emitted
  code sets a fresh scratch counter to 0, compares it with \<open>MAX_ITERATIONS\<close> = 10000 at
  the head of each iteration and executes \<open>unreachable\<close> once the counter has reached
  10000; consequently no compiled loop body executes more than 10000 times in any run
  of the produced module.

  As stated the last part fails: the counter is set to 0 each time the loop statement
  is entered, so it bounds the iterations of one entry and not those of a run.  In
  \<open>nestedLoops\<close> the inner loop is entered in every iteration of the outer loop and its
  body, marked by the probe in \<open>nestedTree\<close>, runs 20000 times before the guard of the
  outer loop ends the run.  \<open>nestedTree\<close> is the code of the statements and, between the
  local declarations and \<open>end\<close>, the body of \<open>main\<close> in the module that \<open>compile\<close> returns.
\<close>

theorem nested_loop_exceeds_cap:
  "(case compileStatements exampleRuntime nestedLoops exampleState of
      Inr (code, st') \<Rightarrow> code = encodes nestedTree | Inl e \<Rightarrow> False)
   \<and> (case tryBlock exampleRuntime emptyState (program nestedLoops) [] of
        Inr (bs, st) \<Rightarrow>
          map_of (functionBodies st) ''main''
            = Some (getLocalDecls exampleRuntime st @ encodes nestedTree @ [0x0B])
      | Inl e \<Rightarrow> False)
   \<and> (\<exists>c'. exec 10020 exampleEnv nestedTree initialConfig = Trapped c' \<and> probes c' = 20000)
   \<and> nat MAX_ITERATIONS < 20000"
proof (intro conjI)
  show "case compileStatements exampleRuntime nestedLoops exampleState of
      Inr (code, st') \<Rightarrow> code = encodes nestedTree | Inl e \<Rightarrow> False"
    by (rule nestedLoops_code)
  show "case tryBlock exampleRuntime emptyState (program nestedLoops) [] of
        Inr (bs, st) \<Rightarrow>
          map_of (functionBodies st) ''main''
            = Some (getLocalDecls exampleRuntime st @ encodes nestedTree @ [0x0B])
      | Inl e \<Rightarrow> False"
    by (rule nestedLoops_module)
  from exec1_outerLoop [OF running_enteredConfig, of 9] obtain c' where
    c': "exec1 (10000 - 0 + 10 + 9) exampleEnv
      (Loop blockType_none
         (guardInstrs 5 @ [LocalGet 0, Call 11, Plain 0x45, BrIf 1] @ outerBody @ [Br 0]))
      enteredConfig = Trapped c'" "probes c' = probes enteredConfig + 2 * (10000 - 0)"
    by auto
  have "exec (Suc (10000 - 0 + 10 + 9)) exampleEnv nestedTree initialConfig = Trapped c'"
    by (rule exec_nestedTree_start [OF c'(1)])
  moreover have "Suc (10000 - 0 + 10 + 9) = (10020 :: nat)" by simp
  ultimately have "exec 10020 exampleEnv nestedTree initialConfig = Trapped c'" by simp
  with c'(2) show "\<exists>c'. exec 10020 exampleEnv nestedTree initialConfig = Trapped c' \<and> probes c' = 20000"
    by (simp add: enteredConfig_def)
  show "nat MAX_ITERATIONS < 20000" by (simp add: MAX_ITERATIONS_def)
qed


text \<open>
  Claim C3, amended: for every \<open>while\<close> statement and every numeric \<open>for\<close> statement the
  emitted code sets a scratch counter, a slot that no other code of the statement reads
  or writes, to 0 before the loop; at the head of each iteration the guard compares it with
  \<open>MAX_ITERATIONS\<close> = 10000, executes \<open>unreachable\<close> when it has reached 10000 and
  increments it otherwise.  Consequently, each time the loop statement is entered its
  body executes at most 10000 times, whatever the called functions and the f64
  instructions do: the probe at the start of the body is passed at most 10000 times in
  any run of the code of the statement, however long.

  The instructions are the emitted bytes read back by \<open>decode\<close>: the bytes of the
  condition (for a \<open>for\<close> statement, of the initialiser, the bound and the step) and of
  the body decode to sequences that name no slot from the counter's on, and the bytes of
  the statement decode to the guarded loop around them.
\<close>

theorem loop_iteration_cap:
  assumes wf: "wfScopes st"
  shows
    "(compileStatement R (WhileStatement cond stmts) st = Inr (code, st') \<longrightarrow>
       (\<exists>body st1 condition st2 C B counter.
          compileStatements R stmts (enterScope (enterScope st)) = Inr (body, st1)
        \<and> compileExpression R cond (exitScope st1) = Inr (condition, st2)
        \<and> decode condition = Some C \<and> decode body = Some B
        \<and> counter = localVarsIndex st2 \<and> localVarsIndex st \<le> counter
        \<and> list_all (below counter) (C @ B)
        \<and> decode code = Some (whileInstrs (func R st') counter C B)
        \<and> code = encodes (whileInstrs (func R st') counter C (Probe # B))
        \<and> (\<forall>n (E :: 'g env) c. probes (config_of
              (exec n E (whileInstrs (func R st') counter C (Probe # B)) c))
            \<le> probes c + nat MAX_ITERATIONS)))
   \<and> (compileStatement R (ForStatement isLocal idn e stop step body) st = Inr (code', st'') \<longrightarrow>
       (\<exists>init st1 loopVar cond st2 stepCode st3 loopBody st4 INIT STEP COND B isDescending counter.
          compileAssign R isLocal idn e (enterScope st) = Inr (init, st1)
        \<and> getVar (id_name idn) st1 = Some loopVar
        \<and> compileExpression R stop (enterScope st1) = Inr (cond, st2)
        \<and> (case step of
              Some inc \<Rightarrow> compileExpression R inc st2
            | None \<Rightarrow> Inr (f64_const f64_one @ fn_call (func R st2 ''box_number''), st2))
            = Inr (stepCode, st3)
        \<and> compileStatements R body st3 = Inr (loopBody, st4)
        \<and> decode init = Some INIT \<and> decode stepCode = Some STEP
        \<and> decode cond = Some COND \<and> decode loopBody = Some B
        \<and> isDescending = localVarsIndex st4 \<and> counter = localVarsIndex st4 + 1
        \<and> localVarsIndex st \<le> isDescending \<and> loopVar < isDescending
        \<and> list_all (below isDescending) (INIT @ STEP @ COND @ B)
        \<and> decode code' = Some (forInstrs (func R st'') counter isDescending loopVar
                     INIT STEP COND B)
        \<and> code' = encodes (forInstrs (func R st'') counter isDescending loopVar
                     INIT STEP COND (Probe # B))
        \<and> (\<forall>n (E :: 'g env) c. probes (config_of
              (exec n E (forInstrs (func R st'') counter isDescending loopVar
                     INIT STEP COND (Probe # B)) c))
            \<le> probes c + nat MAX_ITERATIONS)))
   \<and> (\<forall>counter n (E :: 'g env) rest c. locals c counter = I32 (word_of_int MAX_ITERATIONS) \<longrightarrow>
         exec (Suc (Suc n)) E (guardInstrs counter @ rest) c = Trapped c)"
proof (intro conjI impI allI)
  assume c: "compileStatement R (WhileStatement cond stmts) st = Inr (code, st')"
  from c wf show "\<exists>body st1 condition st2 C B counter.
          compileStatements R stmts (enterScope (enterScope st)) = Inr (body, st1)
        \<and> compileExpression R cond (exitScope st1) = Inr (condition, st2)
        \<and> decode condition = Some C \<and> decode body = Some B
        \<and> counter = localVarsIndex st2 \<and> localVarsIndex st \<le> counter
        \<and> list_all (below counter) (C @ B)
        \<and> decode code = Some (whileInstrs (func R st') counter C B)
        \<and> code = encodes (whileInstrs (func R st') counter C (Probe # B))
        \<and> (\<forall>n (E :: 'g env) c. probes (config_of
              (exec n E (whileInstrs (func R st') counter C (Probe # B)) c))
            \<le> probes c + nat MAX_ITERATIONS)"
  proof (rule compileStatement_While_trees)
    fix st1 st2 C B
    assume b: "compileStatements R stmts (enterScope (enterScope st)) = Inr (encodes B, st1)"
      and e: "compileExpression R cond (exitScope st1) = Inr (encodes C, st2)"
      and le: "localVarsIndex st \<le> localVarsIndex st2"
      and C: "list_all (below (localVarsIndex st2)) C"
      and B: "list_all (below (localVarsIndex st2)) B"
      and code: "\<And>B'. encodes B' = encodes B
        \<Longrightarrow> code = encodes (whileInstrs (func R st') (localVarsIndex st2) C B')"
    let ?k = "localVarsIndex st2"
    have p: "code = encodes (whileInstrs (func R st') ?k C (Probe # B))"
      by (rule code) simp
    have u: "code = encodes (whileInstrs (func R st') ?k C B)"
      by (rule code) simp
    have "list_all (below (Suc ?k)) (whileInstrs (func R st') ?k C B)"
      using C B by (intro below_whileInstrs) (auto intro: below_all_mono)
    from decode_encodes [OF this] u
    have d: "decode code = Some (whileInstrs (func R st') ?k C B)" by simp
    from b e le C B p d decode_encodes [OF C] decode_encodes [OF B] show ?thesis
      by - (rule exI [of _ "encodes B"], rule exI [of _ st1], rule exI [of _ "encodes C"],
          rule exI [of _ st2], rule exI [of _ C], rule exI [of _ B],
          rule exI [of _ "localVarsIndex st2"],
          simp add: while_bound [OF C B] del: encodes.simps encodes_append)
  qed
next
  assume c: "compileStatement R (ForStatement isLocal idn e stop step body) st = Inr (code', st'')"
  from c wf show "\<exists>init st1 loopVar cond st2 stepCode st3 loopBody st4 INIT STEP COND B
        isDescending counter.
          compileAssign R isLocal idn e (enterScope st) = Inr (init, st1)
        \<and> getVar (id_name idn) st1 = Some loopVar
        \<and> compileExpression R stop (enterScope st1) = Inr (cond, st2)
        \<and> (case step of
              Some inc \<Rightarrow> compileExpression R inc st2
            | None \<Rightarrow> Inr (f64_const f64_one @ fn_call (func R st2 ''box_number''), st2))
            = Inr (stepCode, st3)
        \<and> compileStatements R body st3 = Inr (loopBody, st4)
        \<and> decode init = Some INIT \<and> decode stepCode = Some STEP
        \<and> decode cond = Some COND \<and> decode loopBody = Some B
        \<and> isDescending = localVarsIndex st4 \<and> counter = localVarsIndex st4 + 1
        \<and> localVarsIndex st \<le> isDescending \<and> loopVar < isDescending
        \<and> list_all (below isDescending) (INIT @ STEP @ COND @ B)
        \<and> decode code' = Some (forInstrs (func R st'') counter isDescending loopVar
                     INIT STEP COND B)
        \<and> code' = encodes (forInstrs (func R st'') counter isDescending loopVar
                     INIT STEP COND (Probe # B))
        \<and> (\<forall>n (E :: 'g env) c. probes (config_of
              (exec n E (forInstrs (func R st'') counter isDescending loopVar
                     INIT STEP COND (Probe # B)) c))
            \<le> probes c + nat MAX_ITERATIONS)"
  proof (rule compileStatement_For_trees)
    fix st1 loopVar st2 st3 st4 INIT STEP COND B
    assume a: "compileAssign R isLocal idn e (enterScope st) = Inr (encodes INIT, st1)"
      and g: "getVar (id_name idn) st1 = Some loopVar"
      and s: "compileExpression R stop (enterScope st1) = Inr (encodes COND, st2)"
      and i: "(case step of
              Some inc \<Rightarrow> compileExpression R inc st2
            | None \<Rightarrow> Inr (f64_const f64_one @ fn_call (func R st2 ''box_number''), st2))
            = Inr (encodes STEP, st3)"
      and b: "compileStatements R body st3 = Inr (encodes B, st4)"
      and le: "localVarsIndex st \<le> localVarsIndex st4"
      and I: "list_all (below (localVarsIndex st4)) INIT"
      and S: "list_all (below (localVarsIndex st4)) STEP"
      and C: "list_all (below (localVarsIndex st4)) COND"
      and B: "list_all (below (localVarsIndex st4)) B"
      and lv: "loopVar < localVarsIndex st4"
      and code: "\<And>B'. encodes B' = encodes B
        \<Longrightarrow> code' = encodes (forInstrs (func R st'') (localVarsIndex st4 + 1) (localVarsIndex st4)
                 loopVar INIT STEP COND B')"
    let ?d = "localVarsIndex st4"
    have p: "code' = encodes (forInstrs (func R st'') (?d + 1) ?d loopVar INIT STEP COND (Probe # B))"
      by (rule code) simp
    have u: "code' = encodes (forInstrs (func R st'') (?d + 1) ?d loopVar INIT STEP COND B)"
      by (rule code) simp
    have "list_all (below (?d + 2)) (forInstrs (func R st'') (?d + 1) ?d loopVar INIT STEP COND B)"
      using I S C B lv by (intro below_forInstrs) (auto intro: below_all_mono)
    from decode_encodes [OF this] u
    have d: "decode code' = Some (forInstrs (func R st'') (?d + 1) ?d loopVar INIT STEP COND B)"
      by simp
    from a g s i b le I S C B lv p d
      decode_encodes [OF I] decode_encodes [OF S] decode_encodes [OF C] decode_encodes [OF B]
    show ?thesis
      by - (rule exI [of _ "encodes INIT"], rule exI [of _ st1], rule exI [of _ loopVar],
          rule exI [of _ "encodes COND"], rule exI [of _ st2], rule exI [of _ "encodes STEP"],
          rule exI [of _ st3], rule exI [of _ "encodes B"], rule exI [of _ st4],
          rule exI [of _ INIT], rule exI [of _ STEP], rule exI [of _ COND],
          rule exI [of _ B], rule exI [of _ "localVarsIndex st4"],
          rule exI [of _ "localVarsIndex st4 + 1"],
          simp add: for_bound [OF I S C B lv] del: encodes.simps encodes_append)
  qed
qed (simp add: guard_traps)

theorem loop_iteration_cap_witness:
  "\<exists>code st' C B counter code' st'' INIT STEP COND B' isDescending counter' loopVar.
      compileStatement exampleRuntime whileExample exampleState = Inr (code, st')
    \<and> decode code = Some (whileInstrs (func exampleRuntime st') counter C B)
    \<and> list_all (below counter) (C @ B)
    \<and> (\<forall>n c. probes (config_of
          (exec n exampleEnv (whileInstrs (func exampleRuntime st') counter C (Probe # B)) c))
        \<le> probes c + nat MAX_ITERATIONS)
    \<and> compileStatement exampleRuntime forExample exampleState = Inr (code', st'')
    \<and> decode code' = Some (forInstrs (func exampleRuntime st'') counter' isDescending loopVar
               INIT STEP COND B')
    \<and> list_all (below isDescending) (INIT @ STEP @ COND @ B')
    \<and> (\<forall>n c. probes (config_of
          (exec n exampleEnv (forInstrs (func exampleRuntime st'') counter' isDescending loopVar
               INIT STEP COND (Probe # B')) c))
        \<le> probes c + nat MAX_ITERATIONS)
    \<and> exec (Suc (Suc 0)) exampleEnv (guardInstrs 0 @ [Br 0]) cappedConfig = Trapped cappedConfig"
proof -
  have "case compileStatement exampleRuntime whileExample exampleState of
      Inr x \<Rightarrow> True | Inl e \<Rightarrow> False"
    by code_simp
  then obtain code st' where
    w: "compileStatement exampleRuntime whileExample exampleState = Inr (code, st')"
    by (auto dest: result_cases)
  have "case compileStatement exampleRuntime forExample exampleState of
      Inr x \<Rightarrow> True | Inl e \<Rightarrow> False"
    by code_simp
  then obtain code' st'' where
    f: "compileStatement exampleRuntime forExample exampleState = Inr (code', st'')"
    by (auto dest: result_cases)
  have g: "locals cappedConfig 0 = I32 (word_of_int MAX_ITERATIONS)"
    by (simp add: cappedConfig_def)
  note cap = loop_iteration_cap [where 'g = heap, OF wfScopes_exampleState,
      of exampleRuntime "BooleanLiteral True" "[PrintStatement (NumberLiteral 0)]" code st'
        True "ident ''i''" "NumberLiteral f64_one" "NumberLiteral 0" None
        "[PrintStatement (IdentifierExpression (ident ''i''))]" code' st'']
  from cap w [unfolded whileExample_def] f [unfolded forExample_def] g w f
  show ?thesis by (simp del: encodes.simps encodes_append) blast
qed

section \<open>The functions a compilation registers\<close>

text \<open>Expressions and assignments register no function; a statement registers the
  functions it declares, and no name twice.\<close>

lemma sameFuncs_refl [simp]: "sameFuncs st st"
  by (simp add: sameFuncs_def)

lemma sameFuncs_trans: "sameFuncs a b \<Longrightarrow> sameFuncs b c \<Longrightarrow> sameFuncs a c"
  by (simp add: sameFuncs_def)

lemma sameFuncs_updates [simp]:
  "sameFuncs st (st'\<lparr>strings := t\<rparr>) = sameFuncs st st'"
  "sameFuncs st (st'\<lparr>localVarsIndex := n\<rparr>) = sameFuncs st st'"
  "sameFuncs st (st'\<lparr>scopes := ss\<rparr>) = sameFuncs st st'"
  "sameFuncs (st\<lparr>strings := t\<rparr>) st' = sameFuncs st st'"
  "sameFuncs (st\<lparr>localVarsIndex := n\<rparr>) st' = sameFuncs st st'"
  "sameFuncs (st\<lparr>scopes := ss\<rparr>) st' = sameFuncs st st'"
  by (simp_all add: sameFuncs_def)

lemma sameFuncs_scope [simp]:
  "sameFuncs st (enterScope st') = sameFuncs st st'"
  "sameFuncs st (exitScope st') = sameFuncs st st'"
  "sameFuncs (enterScope st) st' = sameFuncs st st'"
  "sameFuncs (exitScope st) st' = sameFuncs st st'"
  by (simp_all add: enterScope_def exitScope_def)

lemma binaryCode_sameFuncs:
  "binaryCode R operator left right st = Inr (code, st') \<Longrightarrow> sameFuncs st st'"
  by (auto simp: binaryCode_def Let_def consumeScratchIndex_def throw_def
      split: if_splits option.splits)

lemma declareVar_sameFuncs: "declareVar nm l st = (r, st') \<Longrightarrow> sameFuncs st st'"
  by (auto simp: declareVar_def split: list.splits option.splits if_splits)

lemma compileExpression_sameFuncs:
  "compileExpression R e st = Inr (code, st') \<Longrightarrow> sameFuncs st st'"
  and compileArgs_sameFuncs:
  "compileArgs R es st = Inr (code, st') \<Longrightarrow> sameFuncs st st'"
proof (induction R e st and R es st arbitrary: code st' and code st'
    rule: compileExpression_compileArgs.induct)
  case (1 R v st)
  then show ?case by (auto split: prod.splits)
next
  case (2 R v st)
  then show ?case by auto
next
  case (3 R b st)
  then show ?case by auto
next
  case (4 R ident st)
  then show ?case by (auto simp: throw_def split: option.splits)
next
  case (5 R e st)
  then show ?case by simp
next
  case (6 R operator l r st)
  from "6.prems"(1) obtain left st1 right st2 where
    l: "compileExpression R l st = Inr (left, st1)" and
    r: "compileExpression R r st1 = Inr (right, st2)" and
    b: "binaryCode R operator left right st2 = Inr (code, st')"
    by (auto simp: bind_eq_Inr)
  from "6.IH"(1) [OF l] "6.IH"(2) [OF l refl r] binaryCode_sameFuncs [OF b]
  show ?case by (blast intro: sameFuncs_trans)
next
  case (7 R operator arg st)
  have IHarg: "sameFuncs st st1"
    if a: "compileExpression R arg st = Inr (c, st1)"
      and o: "operator = ''+'' \<or> operator = ''-'' \<or> operator = ''~''" for c st1
  proof (cases "operator = ''+''")
    case True
    from "7.IH"(1) [OF True a] show ?thesis .
  next
    case np: False
    show ?thesis
    proof (cases "operator = ''-''")
      case nm: False
      with np o have t: "operator = ''~''" by simp
      from "7.IH"(10) [OF np nm t a] show ?thesis .
    next
      case True
      show ?thesis
      proof (cases arg)
        case (StringLiteral x)
        from "7.IH"(2) [OF np True StringLiteral a] show ?thesis .
      next
        case (NumberLiteral x)
        with a show ?thesis by auto
      next
        case (BooleanLiteral x)
        from "7.IH"(3) [OF np True BooleanLiteral a] show ?thesis .
      next
        case (IdentifierExpression x)
        from "7.IH"(4) [OF np True IdentifierExpression a] show ?thesis .
      next
        case (GroupingExpression x)
        from "7.IH"(5) [OF np True GroupingExpression a] show ?thesis .
      next
        case (BinaryExpression x y z)
        from "7.IH"(6) [OF np True BinaryExpression a] show ?thesis .
      next
        case (UnaryExpression x y)
        from "7.IH"(7) [OF np True UnaryExpression a] show ?thesis .
      next
        case (FunctionCallExpression x y z)
        from "7.IH"(8) [OF np True FunctionCallExpression a] show ?thesis .
      next
        case OtherExpression
        from "7.IH"(9) [OF np True OtherExpression a] show ?thesis .
      qed
    qed
  qed
  have unfold: "compileExpression R (UnaryExpression operator arg) st =
     (if operator = ''+'' then compileExpression R arg st
      else if operator = ''-'' then
        (case arg of
           NumberLiteral v \<Rightarrow> Inr (f64_const (negate v) @ fn_call (func R st ''box_number''), st)
         | _ \<Rightarrow> bind (compileExpression R arg st) (\<lambda>(code, st1).
                  Inr (code @ fn_call (func R st1 ''unbox_number'') @ f64_neg
                    @ fn_call (func R st1 ''box_number''), st1)))
      else if operator = ''~'' then
        bind (compileExpression R arg st) (\<lambda>(code, st1).
          Inr (code @ fn_call (func R st1 ''unbox_number'') @ f64_const 0 @ f64_eq
            @ fn_call (func R st1 ''box_bool''), st1))
      else throw (ThrownError (''Unsupported unary operator: '' @ operator)) st)"
    by (rule compileExpression.simps)
  show ?case
  proof (cases "operator = ''+''")
    case True
    with "7.prems"(1) [unfolded unfold] have "compileExpression R arg st = Inr (code, st')"
      by simp
    from IHarg [OF this] True show ?thesis by simp
  next
    case np: False
    show ?thesis
    proof (cases "operator = ''-''")
      case True
      show ?thesis
      proof (cases "\<exists>v. arg = NumberLiteral v")
        case True
        then obtain v where v: "arg = NumberLiteral v" ..
        from "7.prems"(1) [unfolded unfold v] np \<open>operator = ''-''\<close>
        have "st' = st" by auto
        then show ?thesis by simp
      next
        case False
        then have "(case arg of
           NumberLiteral v \<Rightarrow> Inr (f64_const (negate v) @ fn_call (func R st ''box_number''), st)
         | _ \<Rightarrow> bind (compileExpression R arg st) (\<lambda>(code, st1).
                  Inr (code @ fn_call (func R st1 ''unbox_number'') @ f64_neg
                    @ fn_call (func R st1 ''box_number''), st1)))
          = bind (compileExpression R arg st) (\<lambda>(code, st1).
                  Inr (code @ fn_call (func R st1 ''unbox_number'') @ f64_neg
                    @ fn_call (func R st1 ''box_number''), st1))"
          by (cases arg) simp_all
        with "7.prems"(1) [unfolded unfold] np \<open>operator = ''-''\<close>
        have "bind (compileExpression R arg st) (\<lambda>(code, st1).
                  Inr (code @ fn_call (func R st1 ''unbox_number'') @ f64_neg
                    @ fn_call (func R st1 ''box_number''), st1)) = Inr (code, st')"
          by simp
        then obtain c st1 where
          a: "compileExpression R arg st = Inr (c, st1)" and c: "st' = st1"
          by (auto simp: bind_eq_Inr)
        from IHarg [OF a] \<open>operator = ''-''\<close> c show ?thesis by simp
      qed
    next
      case nm: False
      show ?thesis
      proof (cases "operator = ''~''")
        case True
        with np nm "7.prems"(1) [unfolded unfold] obtain c st1 where
          a: "compileExpression R arg st = Inr (c, st1)" and c: "st' = st1"
          by (auto simp: bind_eq_Inr)
        from IHarg [OF a] True c show ?thesis by simp
      next
        case False
        with np nm "7.prems"(1) [unfolded unfold] show ?thesis by (simp add: throw_def)
      qed
    qed
  qed
next
  case (8 R name args loc st)
  show ?case
  proof (cases "id_name name = ''is_string''")
    case True
    with "8.prems"(1) obtain c st1 where
      n: "\<not> length args \<noteq> 1" and
      a: "compileArgs R args st = Inr (c, st1)" and
      c: "st' = st1"
      by (auto simp: bind_eq_Inr throw_def split: if_splits)
    from "8.IH"(1) [OF refl True n a] c show ?thesis by simp
  next
    case False
    with "8.prems"(1) obtain fd c st1 where
      f: "find (\<lambda>fn. fd_name fn = id_name name) (userDefinedFunctions st) = Some fd" and
      n: "\<not> length (params (fd_type fd)) \<noteq> length args" and
      a: "compileArgs R args st = Inr (c, st1)" and
      c: "st' = st1"
      by (auto simp: bind_eq_Inr throw_def Let_def split: if_splits option.splits)
    from "8.IH"(2) [OF refl False f n a] c show ?thesis by simp
  qed
next
  case (9 R st)
  then show ?case by (simp add: throw_def)
next
  case (10 R st)
  then show ?case by simp
next
  case (11 R a as st)
  from "11.prems"(1) obtain c st1 cs where
    a: "compileExpression R a st = Inr (c, st1)" and
    r: "compileArgs R as st1 = Inr (cs, st')"
    by (auto simp: bind_eq_Inr)
  from "11.IH"(1) [OF a] "11.IH"(2) [OF a refl r] show ?case by (blast intro: sameFuncs_trans)
qed

lemma compileAssign_sameFuncs:
  assumes "compileAssign R isLocal idn e st = Inr (code, st')"
  shows "sameFuncs st st'"
proof -
  from assms obtain c st1 where
    e: "compileExpression R e st = Inr (c, st1)" and
    r: "(case declareVar (id_name idn) isLocal st1 of
         (None, st2) \<Rightarrow> throw (notDeclared idn) st2
       | (Some idx, st2) \<Rightarrow> Inr (c @ local_set idx, st2)) = Inr (code, st')"
    by (auto simp: compileAssign_def bind_eq_Inr)
  obtain r' st2 where d: "declareVar (id_name idn) isLocal st1 = (r', st2)"
    by (cases "declareVar (id_name idn) isLocal st1")
  with r have "st' = st2" by (cases r') (auto simp: throw_def)
  with compileExpression_sameFuncs [OF e] declareVar_sameFuncs [OF d] show ?thesis
    by (blast intro: sameFuncs_trans)
qed

lemma sameFuncs_grows: "sameFuncs st st' \<Longrightarrow> grows {} st st'"
  by (simp add: sameFuncs_def grows_def userNames_def bodyKeys_def)

lemma grows_trans: "grows A a b \<Longrightarrow> grows B b c \<Longrightarrow> grows (A \<union> B) a c"
  by (auto simp: grows_def)

lemma grows_sameFuncs_left: "sameFuncs a b \<Longrightarrow> grows D b c \<Longrightarrow> grows D a c"
  by (simp add: sameFuncs_def grows_def userNames_def bodyKeys_def)

lemma grows_sameFuncs_right: "grows D a b \<Longrightarrow> sameFuncs b c \<Longrightarrow> grows D a c"
  by (simp add: sameFuncs_def grows_def userNames_def bodyKeys_def)

lemma grows_updates [simp]:
  "grows D st (st'\<lparr>strings := t\<rparr>) = grows D st st'"
  "grows D st (st'\<lparr>localVarsIndex := n\<rparr>) = grows D st st'"
  "grows D st (st'\<lparr>scopes := ss\<rparr>) = grows D st st'"
  "grows D (st\<lparr>strings := t\<rparr>) st' = grows D st st'"
  "grows D (st\<lparr>localVarsIndex := n\<rparr>) st' = grows D st st'"
  "grows D (st\<lparr>scopes := ss\<rparr>) st' = grows D st st'"
  by (simp_all add: grows_def userNames_def bodyKeys_def)

lemma grows_scope [simp]:
  "grows D st (enterScope st') = grows D st st'"
  "grows D st (exitScope st') = grows D st st'"
  "grows D (enterScope st) st' = grows D st st'"
  "grows D (exitScope st) st' = grows D st st'"
  by (simp_all add: enterScope_def exitScope_def)

lemma keys_setBody: "fst ` set (setBody nm v kvs) = insert nm (fst ` set kvs)"
proof (induction kvs)
  case Nil
  show ?case by simp
next
  case (Cons kv kvs)
  obtain k w where kv: "kv = (k, w)" by (cases kv)
  show ?case
  proof (cases "k = nm")
    case True
    then show ?thesis by (simp add: kv)
  next
    case False
    with Cons show ?thesis by (simp add: kv insert_commute)
  qed
qed

lemma compileStatement_grows:
  "compileStatement R s st = Inr (code, st') \<Longrightarrow> grows (set (declared s)) st st'"
  and compileStatements_grows:
  "compileStatements R ss st = Inr (code, st') \<Longrightarrow> grows (set (declareds ss)) st st'"
  and compileElifs_grows:
  "compileElifs R es elseBlock st = Inr (code, st') \<Longrightarrow> grows (set (declaredElifs es)) st st'"
proof (induction R s st and R ss st and R es elseBlock st
    arbitrary: code st' and code st' and code st'
    rule: compileStatement_compileStatements_compileElifs.induct)
  case (1 R e st)
  then obtain c where "compileExpression R e st = Inr (c, st')" by (auto simp: bind_eq_Inr)
  from compileExpression_sameFuncs [OF this] show ?case by (simp add: sameFuncs_grows)
next
  case (2 R e st)
  then obtain c where "compileExpression R e st = Inr (c, st')" by (auto simp: bind_eq_Inr)
  from compileExpression_sameFuncs [OF this] show ?case by (simp add: sameFuncs_grows)
next
  case (3 R idn expr st)
  then show ?case using compileAssign_sameFuncs by (simp add: sameFuncs_grows)
next
  case (4 R idn expr st)
  then show ?case using compileAssign_sameFuncs by (simp add: sameFuncs_grows)
next
  case (5 R c thenStmts elifBranches elseStmts st)
  from "5.prems"(1) obtain condition st1 thenBranch st2 elseBlock st5 chain where
    c: "compileExpression R c st = Inr (condition, st1)" and
    t: "compileStatements R thenStmts (enterScope st1) = Inr (thenBranch, st2)" and
    e: "(case elseStmts of
        None \<Rightarrow> Inr ([], exitScope st2)
      | Some stmts \<Rightarrow>
          bind (compileStatements R stmts (enterScope (exitScope st2))) (\<lambda>(elseBlock, st4).
            Inr (elseBlock, exitScope st4))) = Inr (elseBlock, st5)" and
    el: "compileElifs R elifBranches elseBlock st5 = Inr (chain, st')"
    by (rule compileStatement_If_parts)
  from "5.IH"(1) [OF c refl t] compileExpression_sameFuncs [OF c]
  have 1: "grows (set (declareds thenStmts)) st st2"
    by (simp add: grows_sameFuncs_left)
  have 2: "grows (case elseStmts of None \<Rightarrow> {} | Some stmts \<Rightarrow> set (declareds stmts)) st2 st5"
  proof (cases elseStmts)
    case None
    with e show ?thesis by (auto intro: sameFuncs_grows)
  next
    case (Some stmts)
    with e obtain st4 where
      s: "compileStatements R stmts (enterScope (exitScope st2)) = Inr (elseBlock, st4)"
      and st5: "st5 = exitScope st4"
      by (auto simp: bind_eq_Inr)
    from "5.IH"(2) [OF c refl t refl refl refl Some s]
    have "grows (set (declareds stmts)) st2 st5"
      unfolding st5 by simp
    with Some show ?thesis by simp
  qed
  from "5.IH"(3) [OF c refl t refl refl refl e refl el]
  have 3: "grows (set (declaredElifs elifBranches)) st5 st'" .
  from grows_trans [OF grows_trans [OF 1 2] 3] show ?case
    by (cases elseStmts) (simp_all add: Un_ac)
next
  case (6 R c stmts st)
  from "6.prems"(1) show ?case
  proof (rule compileStatement_While_parts)
    fix body st1 condition st2
    assume b: "compileStatements R stmts (enterScope (enterScope st)) = Inr (body, st1)" and
      c: "compileExpression R c (exitScope st1) = Inr (condition, st2)" and
      st': "st' = (exitScope st2)\<lparr>localVarsIndex := localVarsIndex st2 + 1\<rparr>"
    from "6.IH" [OF b] have "grows (set (declareds stmts)) st st1" by simp
    moreover from compileExpression_sameFuncs [OF c] have "sameFuncs st1 st'"
      unfolding st' by simp
    ultimately show ?case by (auto intro: grows_sameFuncs_right)
  qed
next
  case (7 R isLocal idn expression condition increment stmts st)
  from "7.prems"(1) show ?case
  proof (rule compileStatement_For_parts)
    fix init st1 loopVar cond st2 step st3 loopBody st4
    assume a: "compileAssign R isLocal idn expression (enterScope st) = Inr (init, st1)" and
      g: "getVar (id_name idn) st1 = Some loopVar" and
      c: "compileExpression R condition (enterScope st1) = Inr (cond, st2)" and
      s: "(case increment of
          Some inc \<Rightarrow> compileExpression R inc st2
        | None \<Rightarrow> Inr (f64_const f64_one @ fn_call (func R st2 ''box_number''), st2)) = Inr (step, st3)" and
      b: "compileStatements R stmts st3 = Inr (loopBody, st4)" and
      st': "st' = (exitScope (exitScope st4))\<lparr>localVarsIndex := localVarsIndex st4 + 2\<rparr>"
    from compileAssign_sameFuncs [OF a] have 1: "sameFuncs st st1" by simp
    from compileExpression_sameFuncs [OF c] have 2: "sameFuncs st1 st2" by simp
    have 3: "sameFuncs st2 st3"
    proof (cases increment)
      case None
      with s show ?thesis by auto
    next
      case (Some inc)
      with s compileExpression_sameFuncs show ?thesis by auto
    qed
    from 1 2 3 have "sameFuncs st st3" by (blast intro: sameFuncs_trans)
    moreover from "7.IH" [OF a refl g c refl s refl b]
    have "grows (set (declareds stmts)) st3 st4" .
    moreover have "sameFuncs st4 st'" unfolding st' by simp
    ultimately show ?case by (auto intro: grows_sameFuncs_left grows_sameFuncs_right)
  qed
next
  case (8 R name ps stmts st)
  let ?st1 = "addUserDefinedFunction (id_name name) (map (\<lambda>p. valType_i32) ps) [valType_i32] st"
  let ?st2 = "foldl (\<lambda>s p. snd (declareVar (id_name p) True s))
          (clearScopes (setLocalVarsIndex 0 ?st1)) ps"
  from "8.prems"(1) obtain body st3 where
    n: "\<not> list_ex (\<lambda>f. fd_name f = id_name name) (userDefinedFunctions st)" and
    b: "compileStatements R stmts ?st2 = Inr (body, st3)" and
    st': "st' = addFunctionBody (id_name name)
       (getLocalDecls R st3 @ (body @ fn_call (func R st3 ''box_nil'') @ fn_return) @ control_end)
       (setScopes (scopes st) (setLocalVarsIndex (localVarsIndex st) st3))"
    by (rule compileStatement_FunctionDecl_parts)
  from "8.IH" [OF n refl refl refl refl refl b]
  have g: "grows (set (declareds stmts)) ?st2 st3" .
  have f: "sameFuncs s (foldl (\<lambda>s p. snd (declareVar (id_name p) True s)) s ps)" for s
  proof (induction ps arbitrary: s)
    case Nil
    then show ?case by simp
  next
    case (Cons p ps)
    from declareVar_sameFuncs [of "id_name p" True s] Cons [of "snd (declareVar (id_name p) True s)"]
    show ?case by (cases "declareVar (id_name p) True s") (auto intro: sameFuncs_trans)
  qed
  from f [of "clearScopes (setLocalVarsIndex 0 ?st1)"]
  have s12: "sameFuncs ?st1 ?st2"
    by (simp add: clearScopes_def setLocalVarsIndex_def)
  from n have nn: "id_name name \<notin> set (userNames st)"
    by (auto simp: userNames_def list_ex_iff)
  have u1: "userNames ?st1 = userNames st @ [id_name name]" "bodyKeys ?st1 = bodyKeys st"
    by (simp_all add: userNames_def bodyKeys_def addUserDefinedFunction_def)
  from s12 have u2: "userNames ?st2 = userNames ?st1" "bodyKeys ?st2 = bodyKeys ?st1"
    by (simp_all add: sameFuncs_def userNames_def bodyKeys_def)
  have u4: "userNames st' = userNames st3" "bodyKeys st' = insert (id_name name) (bodyKeys st3)"
    unfolding st'
    by (simp_all add: userNames_def bodyKeys_def addFunctionBody_def setScopes_def
        setLocalVarsIndex_def keys_setBody)
  from g u1 u2 u4 nn show ?case
    by (auto simp: grows_def)
next
  case (9 R e st)
  then obtain c where "compileExpression R e st = Inr (c, st')" by (auto simp: bind_eq_Inr)
  from compileExpression_sameFuncs [OF this] show ?case by (simp add: sameFuncs_grows)
next
  case (10 R e st)
  have "\<exists>c. compileExpression R e st = Inr (c, st')"
    using "10.prems"(1) by (cases e) (auto simp: bind_eq_Inr simp del: compileExpression.simps)
  then obtain c where "compileExpression R e st = Inr (c, st')" by blast
  from compileExpression_sameFuncs [OF this] show ?case by (simp add: sameFuncs_grows)
next
  case (11 R st)
  then show ?case by (simp add: throw_def)
next
  case (12 R st)
  then show ?case by (simp add: sameFuncs_grows)
next
  case (13 R stmt rest st)
  from "13.prems"(1) obtain c st1 cs where
    s: "compileStatement R stmt st = Inr (c, st1)" and
    r: "compileStatements R rest st1 = Inr (cs, st')"
    by (rule compileStatements_Cons_parts)
  from grows_trans [OF "13.IH"(1) [OF s] "13.IH"(2) [OF s refl r]] show ?case by simp
next
  case (14 R elseBlock st)
  then show ?case by (simp add: sameFuncs_grows)
next
  case (15 R c stmts rest elseBlock st)
  from "15.prems"(1) obtain chain st1 condition st2 elifBranch st3 where
    el: "compileElifs R rest elseBlock st = Inr (chain, st1)" and
    c: "compileExpression R c st1 = Inr (condition, st2)" and
    b: "compileStatements R stmts (enterScope st2) = Inr (elifBranch, st3)" and
    st': "st' = exitScope st3"
    by (rule compileElifs_Cons_parts)
  from "15.IH"(1) [OF el] have 1: "grows (set (declaredElifs rest)) st st1" .
  from "15.IH"(2) [OF el refl c refl b] compileExpression_sameFuncs [OF c]
  have 2: "grows (set (declareds stmts)) st1 st'"
    unfolding st' by (simp add: grows_sameFuncs_left)
  from grows_trans [OF 1 2] show ?case by (simp add: Un_ac)
qed


section \<open>The compile driver\<close>

lemma header_length: "length header = 8" by (simp add: header_def)

lemma tryBlock_Inr:
  "tryBlock R prev ast tbl = Inr (bs, st) \<Longrightarrow>
     \<exists>a. ast = Some a \<and> ast_type a = ''Program'' \<and> compile_inner R prev a tbl = Inr (bs, st)"
  by (auto simp: tryBlock_def split: option.splits if_splits)

lemma tryBlock_sections:
  assumes "tryBlock R prev ast tbl = Inr (bs, st)"
  shows "\<exists>ty im fn ex co.
    take 8 bs = header \<and>
    sections (drop 8 bs) = Some
      [(1, ty), (2, im), (3, fn), (5, [0x01, 0x00, 0x10]),
       (6, [0x01, valType_i32, 0x01] @ i32_const (int (length (getBytes (strings st))) + 1) @ control_end),
       (7, ex), (10, co),
       (11, [0x01, 0x00] @ i32_const 0 @ control_end
          @ unsignedLEB (length (getBytes (strings st))) @ getBytes (strings st))]"
proof -
  from tryBlock_Inr [OF assms] obtain a where "compile_inner R prev a tbl = Inr (bs, st)" by blast
  from compile_inner_layout [OF this] obtain ty im fn ex co where
    bs: "bs = header @ emitSection 1 ty @ emitSection 2 im @ emitSection 3 fn
      @ emitSection 5 [0x01, 0x00, 0x10]
      @ emitSection 6 ([0x01, valType_i32, 0x01] @ i32_const (int (length (getBytes (strings st))) + 1) @ control_end)
      @ emitSection 7 ex @ emitSection 10 co
      @ emitSection 11 ([0x01, 0x00] @ i32_const 0 @ control_end
          @ unsignedLEB (length (getBytes (strings st))) @ getBytes (strings st))"
    by blast
  have e: "emitSection 11 p = emitSection 11 p @ []" for p by simp
  have "take 8 bs = header" unfolding bs by (simp add: header_length)
  moreover have "drop 8 bs = emitSection 1 ty @ emitSection 2 im @ emitSection 3 fn
      @ emitSection 5 [0x01, 0x00, 0x10]
      @ emitSection 6 ([0x01, valType_i32, 0x01] @ i32_const (int (length (getBytes (strings st))) + 1) @ control_end)
      @ emitSection 7 ex @ emitSection 10 co
      @ emitSection 11 ([0x01, 0x00] @ i32_const 0 @ control_end
          @ unsignedLEB (length (getBytes (strings st))) @ getBytes (strings st)) @ []"
    unfolding bs by (simp add: header_length)
  ultimately show ?thesis
    by (intro exI conjI) (assumption, simp only: sections_emitSection sections.simps(1) option.map)
qed

lemma readGlobal_payload:
  "readGlobal ([0x01, vt, mt] @ i32_const v @ control_end) = Some (1, vt, mt, v)"
  by (simp add: readGlobal_def i32_const_def control_end_def read_sleb_signedLEB)

lemma readData_payload:
  "readData ([0x01, 0x00] @ i32_const off @ control_end @ unsignedLEB (length blob) @ blob)
     = Some (1, off, blob)"
  by (simp add: readData_def i32_const_def control_end_def read_sleb_signedLEB read_uleb_unsignedLEB)


lemma offsetOf_within:
  "s \<in> set tbl \<Longrightarrow> offsetOf s tbl + length (utf8 s) \<le> length (getBytes tbl)"
  by (induction tbl) (auto simp: getBytes_def)

lemma hello_ok: "\<exists>bs st. tryBlock exampleRuntime emptyState helloProgram [] = Inr (bs, st)"
proof -
  have "case tryBlock exampleRuntime emptyState helloProgram [] of Inr r \<Rightarrow> True | Inl e \<Rightarrow> False"
    by code_simp
  then show ?thesis by (auto split: sum.splits)
qed



lemma compileSucceeds_iff:
  "compileSucceeds R prev ast \<longleftrightarrow> (\<exists>bs st. tryBlock R prev ast [] = Inr (bs, st))"
  by (auto simp: compileSucceeds_def split: sum.splits)



















lemma startState_funcs [simp]:
  "userDefinedFunctions (startState R prev tbl) = []"
  "functionBodies (startState R prev tbl) = helperBodies R"
  by (simp_all add: startState_def resetFunctionBodies_def clearUserDefinedFunctions_def
      setLocalVarsIndex_def clearScopes_def)





text \<open>A program that declares a function under the name of a runtime helper,
  \<open>func concat() end\<close>: the check for a function that is already declared looks at
  \<open>userDefinedFunctions\<close> only, the compilation succeeds, and the function section holds
  one entry more than the code section counts.\<close>

lemma runtime_name_declared_module:
  "cr_error (compile exampleRuntime emptyState (program [concatDecl])) = None
   \<and> compileSucceeds exampleRuntime emptyState (program [concatDecl])
   \<and> \<not> noClash exampleRuntime (program [concatDecl])
   \<and> (case sections (drop 8 (cr_bytes (compile exampleRuntime emptyState (program [concatDecl])))) of
        Some secs \<Rightarrow>
          map_option (map_option fst \<circ> read_uleb) (map_of secs 3) = Some (Some 16)
          \<and> map_option (map_option fst \<circ> read_uleb) (map_of secs 10) = Some (Some 15)
      | None \<Rightarrow> False)
   \<and> \<not> wellFormedModule (cr_bytes (compile exampleRuntime emptyState (program [concatDecl])))"
  by code_simp







text \<open>
  Claim C2: for every AST that compiles successfully, the output begins with the header
  00 61 73 6D 01 00 00 00 and then holds the sections Type (1), Import (2), Function (3),
  Memory (5), Global (6), Export (7), Code (10), Data (11) in this order, and no other
  section: reading the bytes after the header back as a sequence of sections gives
  exactly these eight ids.
\<close>

theorem compile_section_order:
  assumes "compileSucceeds R prev ast"
  shows "take 8 (cr_bytes (compile R prev ast)) = header
    \<and> (\<exists>secs. sections (drop 8 (cr_bytes (compile R prev ast))) = Some secs
          \<and> map fst secs = [1, 2, 3, 5, 6, 7, 10, 11])"
proof -
  from assms obtain bs st where ok: "tryBlock R prev ast [] = Inr (bs, st)"
    by (auto simp: compileSucceeds_iff)
  then have c: "cr_bytes (compile R prev ast) = bs" by (simp add: compile_def)
  from tryBlock_sections [OF ok] show ?thesis unfolding c by auto
qed

theorem compile_section_order_witness:
  "compileSucceeds exampleRuntime emptyState helloProgram
   \<and> take 8 (cr_bytes (compile exampleRuntime emptyState helloProgram)) = header
   \<and> map_option (map fst) (sections (drop 8 (cr_bytes (compile exampleRuntime emptyState helloProgram))))
       = Some [1, 2, 3, 5, 6, 7, 10, 11]"
proof -
  have s: "compileSucceeds exampleRuntime emptyState helloProgram"
    using hello_ok by (simp add: compileSucceeds_iff)
  from compile_section_order [OF s] s show ?thesis by auto
qed


text \<open>
  Claim C9: for every successful compilation the Global section declares exactly one
  global, of type i32 and mutable, whose initial value is the byte length of the string
  table plus 1; the Data section places the string table at offset 0, so the initial
  value is above the end of every literal of the table.
\<close>

theorem compile_heap_pointer_global:
  assumes "tryBlock R prev ast [] = Inr (bs, st)"
  shows "\<exists>secs glob dat.
      cr_bytes (compile R prev ast) = bs
    \<and> cr_strings (compile R prev ast) = getBytes (strings st)
    \<and> sections (drop 8 bs) = Some secs
    \<and> map snd (filter (\<lambda>s. fst s = 6) secs) = [glob]
    \<and> readGlobal glob = Some (1, valType_i32, 1, int (length (getBytes (strings st))) + 1)
    \<and> map snd (filter (\<lambda>s. fst s = 11) secs) = [dat]
    \<and> readData dat = Some (1, 0, getBytes (strings st))
    \<and> (\<forall>s \<in> set (strings st).
          int (offsetOf s (strings st) + length (utf8 s)) < int (length (getBytes (strings st))) + 1)"
proof -
  from tryBlock_sections [OF assms] obtain ty im fn ex co where
    secs: "sections (drop 8 bs) = Some
      [(1, ty), (2, im), (3, fn), (5, [0x01, 0x00, 0x10]),
       (6, [0x01, valType_i32, 0x01] @ i32_const (int (length (getBytes (strings st))) + 1) @ control_end),
       (7, ex), (10, co),
       (11, [0x01, 0x00] @ i32_const 0 @ control_end
          @ unsignedLEB (length (getBytes (strings st))) @ getBytes (strings st))]"
    by blast
  have off: "\<forall>s \<in> set (strings st).
      int (offsetOf s (strings st) + length (utf8 s)) < int (length (getBytes (strings st))) + 1"
    using offsetOf_within [of _ "strings st"] by fastforce
  from assms have c: "cr_bytes (compile R prev ast) = bs"
    "cr_strings (compile R prev ast) = getBytes (strings st)"
    by (simp_all add: compile_def)
  show ?thesis
    apply (rule exI [of _ "[(1, ty), (2, im), (3, fn), (5, [0x01, 0x00, 0x10]),
       (6, [0x01, valType_i32, 0x01] @ i32_const (int (length (getBytes (strings st))) + 1) @ control_end),
       (7, ex), (10, co),
       (11, [0x01, 0x00] @ i32_const 0 @ control_end
          @ unsignedLEB (length (getBytes (strings st))) @ getBytes (strings st))]"])
    apply (rule exI [of _ "[0x01, valType_i32, 0x01] @ i32_const (int (length (getBytes (strings st))) + 1) @ control_end"])
    apply (rule exI [of _ "[0x01, 0x00] @ i32_const 0 @ control_end
          @ unsignedLEB (length (getBytes (strings st))) @ getBytes (strings st)"])
    apply (intro conjI)
           apply (rule c(1))
          apply (rule c(2))
         apply (rule secs)
        apply simp
       apply (rule readGlobal_payload)
      apply simp
     apply (rule readData_payload)
    apply (rule off)
    done
qed


lemma hello_strings:
  "(case tryBlock exampleRuntime emptyState helloProgram [] of
      Inr (bs, st) \<Rightarrow> strings st = [''hello''] | Inl e \<Rightarrow> False)"
  by code_simp

theorem compile_heap_pointer_global_witness:
  "cr_strings (compile exampleRuntime emptyState helloProgram) = utf8 ''hello''
   \<and> (\<exists>secs glob. sections (drop 8 (cr_bytes (compile exampleRuntime emptyState helloProgram))) = Some secs
        \<and> map snd (filter (\<lambda>s. fst s = 6) secs) = [glob]
        \<and> readGlobal glob = Some (1, valType_i32, 1, 6))"
proof -
  from hello_ok obtain bs st where
    ok: "tryBlock exampleRuntime emptyState helloProgram [] = Inr (bs, st)" by blast
  with hello_strings have st: "strings st = [''hello'']" by simp
  have len: "length (getBytes [''hello'']) = 5" by (simp add: getBytes_def utf8_def)
  from compile_heap_pointer_global [OF ok] show ?thesis
    unfolding st len by (auto simp: getBytes_def)
qed

text \<open>The twelve characters \<open>"\u{110000}"\<close>: a string literal holding one Unicode
  escape whose code point is one above the largest code point.\<close>

definition badEscape :: jsstring where
  "badEscape = [34, 92] @ js ''u{110000}'' @ [34]"

subsection \<open>Every returned token list ends with EOF\<close>

lemma addToken_eof:
  "addToken tokens p ''EOF'' [] None \<noteq> [] \<and> isEOFToken (last (addToken tokens p ''EOF'' [] None))"
  by (simp add: addToken_def isEOFToken_def)

lemma lexStep_Return_eof:
  assumes "lexStep tt kw src p tokens = Return toks err"
  shows "toks \<noteq> [] \<and> isEOFToken (last toks)"
proof -
  have "\<exists>q. toks = addToken tokens q ''EOF'' [] None"
    using assms unfolding lexStep_def Let_def
    by (simp only: split: if_splits sum.splits prod.splits step.splits) blast+
  then obtain q where "toks = addToken tokens q ''EOF'' [] None" ..
  with addToken_eof [of tokens q] show ?thesis by simp
qed

lemma tokenizeLoop_eof:
  "tokenizeLoop tt kw src p tokens = Inr (toks, err) \<Longrightarrow> toks \<noteq> [] \<and> isEOFToken (last toks)"
proof (induction tt kw src p tokens rule: tokenizeLoop.induct)
  case (1 tt kw src p tokens)
  show ?case
  proof (cases "isEndOfFile (peek src (current p))")
    case True
    with "1.prems" have "toks = addToken tokens p ''EOF'' [] None"
      by (subst (asm) tokenizeLoop.simps) simp
    with addToken_eof [of tokens p] show ?thesis by simp
  next
    case False
    show ?thesis
    proof (cases "lexStep tt kw src p tokens")
      case (Continue p' tokens')
      with False "1.prems" have "tokenizeLoop tt kw src p' tokens' = Inr (toks, err)"
        by (subst (asm) tokenizeLoop.simps) simp
      from "1.IH" [OF False Continue this] show ?thesis .
    next
      case (Return toks' err')
      with False "1.prems" have "toks' = toks"
        by (subst (asm) tokenizeLoop.simps) simp
      with lexStep_Return_eof [OF Return] show ?thesis by simp
    next
      case (Throw e)
      with False "1.prems" show ?thesis
        by (subst (asm) tokenizeLoop.simps) simp
    qed
  qed
qed

text \<open>Whenever \<open>tokenize\<close> returns, on the success path and on each of its error
  returns, the token list is not empty and its last element is an EOF token with the
  empty value.\<close>

lemma tokenize_returns_eof:
  "tokenize tt kw src = Inr (toks, err) \<Longrightarrow> toks \<noteq> [] \<and> isEOFToken (last toks)"
  unfolding tokenize_def by (rule tokenizeLoop_eof)

subsection \<open>A Unicode escape above 0x10FFFF\<close>

lemma decode_badEscape: "decodeStringLiteralSegment badEscape (Suc 0) = Inl RangeError"
  by (simp add: decodeStringLiteralSegment_def at_def badEscape_def js_def scanHex.simps cu_def
      isHex_def parseHex_def hexDigit_def fromCodePoint_def)

lemma stringLoop_badEscape:
  "stringLoop badEscape 34 \<lparr>line = Suc 0, column = 2, current = Suc 0\<rparr> [] = Inl RangeError"
proof -
  have "peek badEscape (Suc 0) = 92" by (simp add: peek_def badEscape_def js_def)
  then show ?thesis
    by (subst stringLoop.simps) (simp add: decode_badEscape isEndOfFile_def match_def)
qed

lemma lexStep_badEscape:
  "lexStep tt kw badEscape \<lparr>line = Suc 0, column = Suc 0, current = 0\<rparr> [] = Throw RangeError"
proof -
  have p: "peek badEscape 0 = 34" by (simp add: peek_def badEscape_def js_def)
  have a: "advance badEscape \<lparr>line = Suc 0, column = Suc 0, current = 0\<rparr>
      = \<lparr>line = Suc 0, column = 2, current = Suc 0\<rparr>"
    by (simp add: advance_def p isNewline_def)
  show ?thesis
    by (simp add: lexStep_def Let_def p a js_def stringLoop_badEscape)
qed

text \<open>
  Claim C10: for every input source string, \<open>tokenize\<close> returns a token list whose last
  element is an EOF token, on the success path and on every error path.

  Every \<open>return\<close> of \<open>tokenize\<close> does push the EOF token last
  (\<open>tokenize_returns_eof\<close>), but \<open>tokenize\<close> does not return for every input: on the
  source text \<open>"\u{110000}"\<close> the escape decoder hands the code point 0x110000 to
  \<open>String.fromCodePoint\<close>, which throws a RangeError that nothing catches, so no token
  list is produced at all.  The theorem evaluates \<open>tokenize\<close> at that input, for any
  token tables.
\<close>

theorem tokenize_badEscape_throws: "tokenize tokenTypes kw badEscape = Inl RangeError"
proof -
  have p: "peek badEscape 0 = 34" by (simp add: peek_def badEscape_def js_def)
  show ?thesis
    unfolding tokenize_def
    by (subst tokenizeLoop.simps) (simp add: p isEndOfFile_def lexStep_badEscape)
qed

end
